theory Spec2Isabelle
  imports Main
begin

section \<open>JavaScript values of the connection configuration\<close>

text \<open>
  The option objects handled by \<^verbatim>\<open>s3-connection-pool.js\<close> are modelled as records whose
  fields are optional: \<open>None\<close> stands for a property that is absent (\<^verbatim>\<open>undefined\<close>).
  The fields have the types of the configuration the pool is written for: strings for
  the region, the endpoint and the two parts of the credentials, booleans for the flags,
  a number for \<^verbatim>\<open>maxAttempts\<close>. A JavaScript string is a \<open>string\<close>; its characters stand
  for the code units below 256. A string is falsy exactly when it is empty, an absent
  value is falsy, a number is falsy exactly when it is zero, and numbers are integers.
\<close>

definition truthy :: "string option \<Rightarrow> bool" where
  "truthy v = (case v of None \<Rightarrow> False | Some s \<Rightarrow> s \<noteq> [])"

definition truthy_num :: "int option \<Rightarrow> bool" where
  "truthy_num v = (case v of None \<Rightarrow> False | Some n \<Rightarrow> n \<noteq> 0)"

record credentials =
  accessKeyId :: "string option"
  secretAccessKey :: "string option"

text \<open>
  The options passed to \<^verbatim>\<open>getClient\<close>: the five fields read by \<^verbatim>\<open>_generateKey\<close> and one
  further client option, \<^verbatim>\<open>maxAttempts\<close>, which \<^verbatim>\<open>_createClient\<close> reads.
\<close>

record s3_options =
  o_region :: "string option"
  o_endpoint :: "string option"
  o_forcePathStyle :: "bool option"
  o_tls :: "bool option"
  o_credentials :: "credentials option"
  o_maxAttempts :: "int option"

text \<open>The object \<^verbatim>\<open>normalized\<close> built in \<^verbatim>\<open>_generateKey\<close> (lines 97 to 108).\<close>

record normalized =
  n_region :: string
  n_endpoint :: "string option"
  n_forcePathStyle :: bool
  n_tls :: bool
  n_credentials :: "credentials option"
  n_useIamRole :: bool

definition normalize :: "s3_options \<Rightarrow> normalized" where
  "normalize options =
     \<lparr> n_region = (if truthy (o_region options) then the (o_region options) else ''us-east-1''),
       n_endpoint = (if truthy (o_endpoint options) then o_endpoint options else None),
       n_forcePathStyle = (case o_forcePathStyle options of Some b \<Rightarrow> b | None \<Rightarrow> False),
       n_tls = (case o_tls options of Some b \<Rightarrow> b | None \<Rightarrow> True),
       n_credentials =
         (case o_credentials options of
            Some c \<Rightarrow> Some \<lparr> accessKeyId = accessKeyId c, secretAccessKey = secretAccessKey c \<rparr>
          | None \<Rightarrow> None),
       n_useIamRole = (o_credentials options = None) \<rparr>"

section \<open>JSON.stringify on the normalized object\<close>

text \<open>
  \<^verbatim>\<open>JSON.stringify\<close> is a built-in; the model follows ECMAScript's
  \<^verbatim>\<open>QuoteJSONString\<close> and \<^verbatim>\<open>SerializeJSONObject\<close>: a string is written between double
  quotes with the double quote, the backslash and the control characters escaped, a
  boolean as \<^verbatim>\<open>true\<close> or \<^verbatim>\<open>false\<close>, \<^verbatim>\<open>null\<close> as \<^verbatim>\<open>null\<close>, an object as its
  members in insertion order, and a member whose value is \<^verbatim>\<open>undefined\<close> is left out.
\<close>

definition dq :: char where
  "dq = CHR 0x22"

definition bsl :: char where
  "bsl = CHR 0x5C"

definition hexdig :: "nat \<Rightarrow> char" where
  "hexdig n = (if n < 10 then char_of (48 + n) else char_of (87 + n))"

definition json_esc :: "char \<Rightarrow> string" where
  "json_esc c =
     (if c = CHR 0x08 then [bsl, CHR ''b'']
      else if c = CHR 0x09 then [bsl, CHR ''t'']
      else if c = CHR 0x0A then [bsl, CHR ''n'']
      else if c = CHR 0x0C then [bsl, CHR ''f'']
      else if c = CHR 0x0D then [bsl, CHR ''r'']
      else if c = dq then [bsl, dq]
      else if c = bsl then [bsl, bsl]
      else if (of_char c :: nat) < 32
        then [bsl, CHR ''u'', CHR ''0'', CHR ''0'',
              hexdig (of_char c div 16), hexdig (of_char c mod 16)]
      else [c])"

definition json_string :: "string \<Rightarrow> string" where
  "json_string s = dq # concat (map json_esc s) @ [dq]"

definition json_bool :: "bool \<Rightarrow> string" where
  "json_bool b = (if b then ''true'' else ''false'')"

definition json_nullable :: "string option \<Rightarrow> string" where
  "json_nullable v = (case v of None \<Rightarrow> ''null'' | Some s \<Rightarrow> json_string s)"

definition json_member :: "string \<Rightarrow> string \<Rightarrow> string" where
  "json_member name val = json_string name @ '':'' @ val"

definition json_credentials :: "credentials \<Rightarrow> string" where
  "json_credentials c =
     ''{'' @
     (case (accessKeyId c, secretAccessKey c) of
        (None, None) \<Rightarrow> []
      | (Some a, None) \<Rightarrow> json_member ''accessKeyId'' (json_string a)
      | (None, Some s) \<Rightarrow> json_member ''secretAccessKey'' (json_string s)
      | (Some a, Some s) \<Rightarrow>
          json_member ''accessKeyId'' (json_string a) @ '','' @
          json_member ''secretAccessKey'' (json_string s)) @
     ''}''"

definition JSON_stringify :: "normalized \<Rightarrow> string" where
  "JSON_stringify n =
     ''{'' @ json_member ''region'' (json_string (n_region n)) @
     '','' @ json_member ''endpoint'' (json_nullable (n_endpoint n)) @
     '','' @ json_member ''forcePathStyle'' (json_bool (n_forcePathStyle n)) @
     '','' @ json_member ''tls'' (json_bool (n_tls n)) @
     '','' @ json_member ''credentials''
              (case n_credentials n of None \<Rightarrow> ''null'' | Some c \<Rightarrow> json_credentials c) @
     '','' @ json_member ''useIamRole'' (json_bool (n_useIamRole n)) @
     ''}''"

definition generateKey :: "s3_options \<Rightarrow> string" where
  "generateKey options = JSON_stringify (normalize options)"

section \<open>The effective fields, as the specification words them\<close>







text \<open>The same options with a region or endpoint that is the empty string taken away.\<close>

definition empty_as_absent :: "s3_options \<Rightarrow> s3_options" where
  "empty_as_absent options =
     options\<lparr> o_region := (if o_region options = Some [] then None else o_region options),
              o_endpoint := (if o_endpoint options = Some [] then None else o_endpoint options) \<rparr>"

section \<open>Runtime objects: agents, clients, timers\<close>

text \<open>
  Objects with identity (agents, clients, interval timers) are named by references drawn
  from a counter, \<open>next_ref\<close>, so that two objects built at different moments are
  different values. The world holds the agents built so far and the set \<open>destroyed\<close>
  of the agents whose \<^verbatim>\<open>destroy()\<close> has run to its end. Whether \<^verbatim>\<open>agent.destroy()\<close>
  raises is decided by the library, outside this repository: it is the parameter
  \<open>destroy_throws\<close> of the world. An agent whose \<^verbatim>\<open>destroy()\<close> raises is not added to
  \<open>destroyed\<close>.
\<close>

datatype js_error = Error string | TypeError string | AgentError nat

record agent =
  a_secure :: bool
  a_keepAlive :: bool
  a_keepAliveMsecs :: int
  a_maxSockets :: int
  a_maxFreeSockets :: int
  a_timeout :: int
  a_scheduling :: string

record world =
  agents :: "nat \<Rightarrow> agent option"
  next_ref :: nat
  destroyed :: "nat set"
  timers :: "nat set"
  destroy_throws :: "nat \<Rightarrow> bool"

record s3client =
  c_ref :: nat
  c_options :: s3_options
  c_httpsAgent :: nat
  c_httpAgent :: nat
  c_connectionTimeout :: int
  c_requestTimeout :: int
  c_maxAttempts :: int

definition agent_destroy :: "nat \<Rightarrow> world \<Rightarrow> js_error option \<times> world" where
  "agent_destroy a w =
     (if destroy_throws w a then (Some (AgentError a), w)
      else (None, w\<lparr>destroyed := insert a (destroyed w)\<rparr>))"

section \<open>PoolEntry\<close>

text \<open>
  \<^verbatim>\<open>Date.now()\<close> is the parameter \<open>now\<close> of every operation that reads the clock: an
  operation is taken to run within one reading of the clock. Times and the TTL are
  integers (milliseconds).
\<close>

record PoolEntry =
  client :: s3client
  httpsAgent :: "nat option"
  httpAgent :: "nat option"
  createdAt :: int
  lastUsedAt :: int
  useCount :: nat

definition PoolEntry_new :: "s3client \<Rightarrow> nat option \<Rightarrow> nat option \<Rightarrow> int \<Rightarrow> PoolEntry" where
  "PoolEntry_new c https http now =
     \<lparr> client = c, httpsAgent = https, httpAgent = http,
       createdAt = now, lastUsedAt = now, useCount = 0 \<rparr>"

definition touch :: "int \<Rightarrow> PoolEntry \<Rightarrow> PoolEntry" where
  "touch now e = e\<lparr>lastUsedAt := now, useCount := useCount e + 1\<rparr>"

definition isExpired :: "int \<Rightarrow> int \<Rightarrow> PoolEntry \<Rightarrow> bool" where
  "isExpired now ttl e = (now - createdAt e > ttl)"

text \<open>
  \<^verbatim>\<open>destroy()\<close>, lines 49 to 61. \<open>destroy_body\<close> is the block under \<^verbatim>\<open>try\<close>: a
  statement that raises ends the block with the error and the world reached so far.
  \<open>destroy\<close> adds the empty \<^verbatim>\<open>catch\<close>.
\<close>

definition destroy_body :: "PoolEntry \<Rightarrow> world \<Rightarrow> js_error option \<times> world" where
  "destroy_body e w =
     (case (case httpsAgent e of None \<Rightarrow> (None, w) | Some a \<Rightarrow> agent_destroy a w) of
        (Some err, w1) \<Rightarrow> (Some err, w1)
      | (None, w1) \<Rightarrow> (case httpAgent e of None \<Rightarrow> (None, w1) | Some b \<Rightarrow> agent_destroy b w1))"

definition destroy :: "PoolEntry \<Rightarrow> world \<Rightarrow> js_error option \<times> world" where
  "destroy e w =
     (case destroy_body e w of
        (Some err, w1) \<Rightarrow> (None, w1)
      | (None, w1) \<Rightarrow> (None, w1))"

text \<open>
  The agents that \<open>destroy\<close> closes, given which agents raise: the https agent unless its
  \<^verbatim>\<open>destroy()\<close> raises, and the http agent unless either \<^verbatim>\<open>destroy()\<close> raises (lemma
  \<open>snd_destroy\<close>).
\<close>

definition destroy_closes :: "(nat \<Rightarrow> bool) \<Rightarrow> PoolEntry \<Rightarrow> nat set" where
  "destroy_closes throws e =
     (let http_part = (case httpAgent e of
                         None \<Rightarrow> {}
                       | Some b \<Rightarrow> if throws b then {} else {b})
      in case httpsAgent e of
           None \<Rightarrow> http_part
         | Some a \<Rightarrow> if throws a then {} else insert a http_part)"

definition entry_agents :: "PoolEntry \<Rightarrow> nat set" where
  "entry_agents e = set_option (httpsAgent e) \<union> set_option (httpAgent e)"

section \<open>S3ConnectionPool\<close>

text \<open>
  The \<^verbatim>\<open>Map\<close> of the pool is an association list in insertion order. \<^verbatim>\<open>set\<close> on a
  key that is present replaces the value in place, on a new key appends; \<^verbatim>\<open>delete\<close>
  removes the key.
\<close>

primrec Map_set :: "'k \<Rightarrow> 'v \<Rightarrow> ('k \<times> 'v) list \<Rightarrow> ('k \<times> 'v) list" where
  "Map_set k v [] = [(k, v)]"
| "Map_set k v (p # ps) = (if fst p = k then (k, v) # ps else p # Map_set k v ps)"

definition Map_get :: "('k \<times> 'v) list \<Rightarrow> 'k \<Rightarrow> 'v option" where
  "Map_get m k = map_of m k"

definition Map_delete :: "'k \<Rightarrow> ('k \<times> 'v) list \<Rightarrow> ('k \<times> 'v) list" where
  "Map_delete k m = filter (\<lambda>p. fst p \<noteq> k) m"

definition DEFAULT_TTL :: int where
  "DEFAULT_TTL = 30 * 60 * 1000"

definition DEFAULT_CLEANUP_INTERVAL :: int where
  "DEFAULT_CLEANUP_INTERVAL = 5 * 60 * 1000"

definition DEFAULT_MAX_SOCKETS :: int where
  "DEFAULT_MAX_SOCKETS = 50"

definition DEFAULT_KEEP_ALIVE_MSECS :: int where
  "DEFAULT_KEEP_ALIVE_MSECS = 1000"

definition DEFAULT_CONNECTION_TIMEOUT :: int where
  "DEFAULT_CONNECTION_TIMEOUT = 10000"

definition DEFAULT_REQUEST_TIMEOUT :: int where
  "DEFAULT_REQUEST_TIMEOUT = 30000"

record pool_options =
  p_ttl :: "int option"
  p_cleanupInterval :: "int option"
  p_maxSockets :: "int option"
  p_keepAliveMsecs :: "int option"
  p_connectionTimeout :: "int option"
  p_requestTimeout :: "int option"

record S3ConnectionPool =
  pool :: "(string \<times> PoolEntry) list"
  ttl :: int
  cleanupInterval :: int
  maxSockets :: int
  keepAliveMsecs :: int
  connectionTimeout :: int
  requestTimeout :: int
  cleanupTimer :: "nat option"

text \<open>\<^verbatim>\<open>v || d\<close> on an optional number.\<close>

definition or_default :: "int option \<Rightarrow> int \<Rightarrow> int" where
  "or_default v d = (if truthy_num v then the v else d)"

text \<open>
  The constructor, lines 68 to 88. The argument \<open>None\<close> is a call without options, for
  which the default parameter \<^verbatim>\<open>options = {}\<close> applies. \<^verbatim>\<open>setInterval\<close> returns a new
  timer, which is active until \<^verbatim>\<open>clearInterval\<close>. The handlers registered on
  \<^verbatim>\<open>process\<close> run \<^verbatim>\<open>shutdown\<close>, which is modelled below; their registration is not
  part of the state.
\<close>

definition S3ConnectionPool_new :: "pool_options option \<Rightarrow> world \<Rightarrow> S3ConnectionPool \<times> world" where
  "S3ConnectionPool_new opts w =
     (let options = (case opts of
                       Some v \<Rightarrow> v
                     | None \<Rightarrow> \<lparr> p_ttl = None, p_cleanupInterval = None, p_maxSockets = None,
                                 p_keepAliveMsecs = None, p_connectionTimeout = None,
                                 p_requestTimeout = None \<rparr>);
          t = next_ref w
      in (\<lparr> pool = [],
             ttl = or_default (p_ttl options) DEFAULT_TTL,
             cleanupInterval = or_default (p_cleanupInterval options) DEFAULT_CLEANUP_INTERVAL,
             maxSockets = or_default (p_maxSockets options) DEFAULT_MAX_SOCKETS,
             keepAliveMsecs = or_default (p_keepAliveMsecs options) DEFAULT_KEEP_ALIVE_MSECS,
             connectionTimeout = or_default (p_connectionTimeout options) DEFAULT_CONNECTION_TIMEOUT,
             requestTimeout = or_default (p_requestTimeout options) DEFAULT_REQUEST_TIMEOUT,
             cleanupTimer = Some t \<rparr>,
          w\<lparr>next_ref := t + 1, timers := insert t (timers w)\<rparr>))"

definition createAgents :: "S3ConnectionPool \<Rightarrow> world \<Rightarrow> (nat \<times> nat) \<times> world" where
  "createAgents p w =
     (let h = next_ref w;
          mk = (\<lambda>secure. \<lparr> a_secure = secure, a_keepAlive = True,
                            a_keepAliveMsecs = keepAliveMsecs p, a_maxSockets = maxSockets p,
                            a_maxFreeSockets = 10, a_timeout = connectionTimeout p,
                            a_scheduling = ''lifo'' \<rparr>)
      in ((h, h + 1),
          w\<lparr>agents := (agents w)(h \<mapsto> mk True, h + 1 \<mapsto> mk False), next_ref := h + 2\<rparr>))"


definition createClient ::
  "s3_options \<Rightarrow> S3ConnectionPool \<Rightarrow> world \<Rightarrow> (s3client \<times> nat \<times> nat) \<times> world" where
  "createClient options p w =
     (case createAgents p w of
        ((https, http), w1) \<Rightarrow>
          ((\<lparr> c_ref = next_ref w1, c_options = options,
               c_httpsAgent = https, c_httpAgent = http,
               c_connectionTimeout = connectionTimeout p, c_requestTimeout = requestTimeout p,
               c_maxAttempts = or_default (o_maxAttempts options) 3 \<rparr>, https, http),
           w1\<lparr>next_ref := next_ref w1 + 1\<rparr>))"

text \<open>
  \<^verbatim>\<open>getClient\<close>, lines 161 to 185. The entry found in the map is an object: touching it
  changes the entry stored under the key. \<open>destroy\<close> never returns an error (lemma
  \<open>destroy_no_error\<close>), so its callers go on with the world it returns.
\<close>

definition getClient ::
  "s3_options \<Rightarrow> int \<Rightarrow> S3ConnectionPool \<times> world \<Rightarrow> s3client \<times> S3ConnectionPool \<times> world" where
  "getClient options now pw =
     (case pw of (p, w) \<Rightarrow>
        let key = generateKey options;
            found = Map_get (pool p) key
        in if found \<noteq> None \<and> \<not> isExpired now (ttl p) (the found)
           then (client (the found),
                 p\<lparr>pool := Map_set key (touch now (the found)) (pool p)\<rparr>, w)
           else
             (case (case found of
                      Some entry \<Rightarrow> (p\<lparr>pool := Map_delete key (pool p)\<rparr>, snd (destroy entry w))
                    | None \<Rightarrow> (p, w)) of
                (p1, w1) \<Rightarrow>
                  (case createClient options p1 w1 of
                     ((c, https, http), w2) \<Rightarrow>
                       (c,
                        p1\<lparr>pool := Map_set key
                              (touch now (PoolEntry_new c (Some https) (Some http) now)) (pool p1)\<rparr>,
                        w2))))"

text \<open>\<^verbatim>\<open>cleanup\<close>, lines 190 to 213: the keys of the expired entries are collected first.\<close>

definition cleanup_key :: "string \<Rightarrow> S3ConnectionPool \<times> world \<Rightarrow> S3ConnectionPool \<times> world" where
  "cleanup_key key pw =
     (case pw of (p, w) \<Rightarrow>
        (case Map_get (pool p) key of
           Some entry \<Rightarrow> (p\<lparr>pool := Map_delete key (pool p)\<rparr>, snd (destroy entry w))
         | None \<Rightarrow> (p, w)))"

definition expiredKeys :: "int \<Rightarrow> S3ConnectionPool \<Rightarrow> string list" where
  "expiredKeys now p = map fst (filter (\<lambda>kv. isExpired now (ttl p) (snd kv)) (pool p))"

definition cleanup :: "int \<Rightarrow> S3ConnectionPool \<times> world \<Rightarrow> S3ConnectionPool \<times> world" where
  "cleanup now pw = fold cleanup_key (expiredKeys now (fst pw)) pw"

text \<open>\<^verbatim>\<open>getStats\<close>, lines 218 to 235.\<close>

record connection_stats =
  st_key :: string
  st_age :: int
  st_lastUsed :: int
  st_useCount :: nat
  st_isExpired :: bool

record pool_stats =
  totalConnections :: nat
  connections :: "connection_stats list"

definition getStats :: "int \<Rightarrow> S3ConnectionPool \<Rightarrow> pool_stats" where
  "getStats now p =
     \<lparr> totalConnections = length (pool p),
       connections =
         map (\<lambda>kv. \<lparr> st_key = take 100 (fst kv) @ ''...'',
                      st_age = now - createdAt (snd kv),
                      st_lastUsed = now - lastUsedAt (snd kv),
                      st_useCount = useCount (snd kv),
                      st_isExpired = isExpired now (ttl p) (snd kv) \<rparr>) (pool p) \<rparr>"

text \<open>\<^verbatim>\<open>shutdown\<close>, lines 240 to 251, and \<^verbatim>\<open>clear\<close>, lines 256 to 261.\<close>

definition destroy_all :: "PoolEntry list \<Rightarrow> world \<Rightarrow> world" where
  "destroy_all es w = fold (\<lambda>e w'. snd (destroy e w')) es w"

definition shutdown :: "S3ConnectionPool \<times> world \<Rightarrow> S3ConnectionPool \<times> world" where
  "shutdown pw =
     (case pw of (p, w) \<Rightarrow>
        (case (case cleanupTimer p of
                 Some t \<Rightarrow> (p\<lparr>cleanupTimer := None\<rparr>, w\<lparr>timers := timers w - {t}\<rparr>)
               | None \<Rightarrow> (p, w)) of
           (p1, w1) \<Rightarrow> (p1\<lparr>pool := []\<rparr>, destroy_all (map snd (pool p1)) w1)))"

definition clear :: "S3ConnectionPool \<times> world \<Rightarrow> S3ConnectionPool \<times> world" where
  "clear pw =
     (case pw of (p, w) \<Rightarrow> (p\<lparr>pool := []\<rparr>, destroy_all (map snd (pool p)) w))"

section \<open>The singleton and the module's functions\<close>

record module_state =
  poolInstance :: "S3ConnectionPool option"
  m_world :: world

definition getPool :: "pool_options option \<Rightarrow> module_state \<Rightarrow> S3ConnectionPool \<times> module_state" where
  "getPool opts m =
     (case poolInstance m of
        Some p \<Rightarrow> (p, m)
      | None \<Rightarrow>
          (case S3ConnectionPool_new opts (m_world m) of
             (p, w) \<Rightarrow> (p, \<lparr> poolInstance = Some p, m_world = w \<rparr>)))"

definition getPooledS3Client :: "s3_options \<Rightarrow> int \<Rightarrow> module_state \<Rightarrow> s3client \<times> module_state" where
  "getPooledS3Client options now m =
     (case getPool None m of
        (p, m1) \<Rightarrow>
          (case getClient options now (p, m_world m1) of
             (c, p', w') \<Rightarrow> (c, \<lparr> poolInstance = Some p', m_world = w' \<rparr>)))"



section \<open>configureS3 of aws-s3.js\<close>

text \<open>
  The configuration node and the sources \<^verbatim>\<open>getValue\<close> reads. A lookup in the message,
  in the flow or global context may raise: \<open>Inl m\<close> is an error with message \<open>m\<close>.
  Values are strings or absent.
\<close>

record aws_config =
  cfg_endpoint :: "string option"
  cfg_endpointType :: "string option"
  cfg_forcepathstyle :: "bool option"
  cfg_skiptlsverify :: "bool option"
  cfg_region :: "string option"
  cfg_regionType :: "string option"
  cfg_accessKeyId :: "string option"
  cfg_accessKeyIdType :: "string option"
  cfg_secretAccessKey :: "string option"
  cfg_secretAccessKeyType :: "string option"
  cfg_useIamRole :: "bool option"

record red_env =
  getMessageProperty :: "string \<Rightarrow> string + string option"
  flow_get :: "string \<Rightarrow> string + string option"
  global_get :: "string \<Rightarrow> string + string option"
  process_env :: "string \<Rightarrow> string option"

definition truthy_bool :: "bool option \<Rightarrow> bool" where
  "truthy_bool v = (case v of None \<Rightarrow> False | Some b \<Rightarrow> b)"

text \<open>
  \<^verbatim>\<open>getValue\<close>, lines 87 to 111 of aws-s3.js: the \<^verbatim>\<open>switch\<close> on the type, and around
  it the test of the value and the \<^verbatim>\<open>catch\<close> that raises the error again with a new
  message.
\<close>

definition getValue_switch :: "red_env \<Rightarrow> string option \<Rightarrow> string \<Rightarrow> string + string option" where
  "getValue_switch env type v =
     (if type = Some ''msg'' then getMessageProperty env v
      else if type = Some ''flow'' then flow_get env v
      else if type = Some ''global'' then global_get env v
      else if type = Some ''env'' then Inr (process_env env v)
      else Inr (Some v))"

definition getValue :: "red_env \<Rightarrow> string option \<Rightarrow> string option \<Rightarrow> js_error + string option" where
  "getValue env val type =
     (if \<not> truthy val then Inr None
      else
        (case getValue_switch env type (the val) of
           Inr r \<Rightarrow> Inr r
         | Inl m \<Rightarrow>
             Inl (Error (''Failed to get value for type: '' @
                         (case type of Some t \<Rightarrow> t | None \<Rightarrow> ''undefined'') @
                         '', value: '' @ the val @ ''. Error: '' @ m))))"

text \<open>\<^verbatim>\<open>a || b\<close> on optional strings.\<close>

definition or_else :: "string option \<Rightarrow> string option \<Rightarrow> string option" where
  "or_else a b = (if truthy a then a else b)"

text \<open>
  \<^verbatim>\<open>configureS3\<close>, lines 19 to 52 of aws-s3.js. \<open>awsConfig\<close> is \<open>None\<close> when the node has
  no configuration node; reading a property of it then raises a \<^verbatim>\<open>TypeError\<close>.
\<close>

definition configureS3 ::
  "aws_config option \<Rightarrow> red_env \<Rightarrow> int \<Rightarrow> module_state \<Rightarrow> (js_error + s3client) \<times> module_state" where
  "configureS3 awsConfig env now m =
     (case awsConfig of
        None \<Rightarrow> (Inl (TypeError ''Cannot read properties of undefined''), m)
      | Some cfg \<Rightarrow>
     (case getValue env (cfg_accessKeyId cfg) (cfg_accessKeyIdType cfg) of
        Inl e \<Rightarrow> (Inl e, m)
      | Inr accessKey \<Rightarrow>
     (case getValue env (cfg_secretAccessKey cfg) (cfg_secretAccessKeyType cfg) of
        Inl e \<Rightarrow> (Inl e, m)
      | Inr secretKey \<Rightarrow>
     (case getValue env (cfg_endpoint cfg) (or_else (cfg_endpointType cfg) (Some ''str'')) of
        Inl e \<Rightarrow> (Inl e, m)
      | Inr endpoint \<Rightarrow>
     (case getValue env (cfg_region cfg) (or_else (cfg_regionType cfg) (Some ''str'')) of
        Inl e \<Rightarrow> (Inl e, m)
      | Inr regionRead \<Rightarrow>
          (let regionValue = or_else regionRead (cfg_region cfg)
           in if \<not> truthy regionValue
              then (Inl (Error ''Region is missing in AWS S3 configuration''), m)
              else
                (let options0 = \<lparr> o_region = regionValue, o_endpoint = None,
                                   o_forcePathStyle = None, o_tls = None,
                                   o_credentials = None, o_maxAttempts = None \<rparr>;
                     options1 =
                       (if truthy endpoint
                        then options0\<lparr> o_endpoint := endpoint,
                                       o_forcePathStyle := Some (truthy_bool (cfg_forcepathstyle cfg)),
                                       o_tls := Some (\<not> truthy_bool (cfg_skiptlsverify cfg)) \<rparr>
                        else options0);
                     options2 =
                       (if truthy_bool (cfg_useIamRole cfg) then options1
                        else if truthy accessKey \<and> truthy secretKey
                        then options1\<lparr> o_credentials :=
                               Some \<lparr> accessKeyId = accessKey, secretAccessKey = secretKey \<rparr> \<rparr>
                        else options1)
                 in case getPooledS3Client options2 now m of
                      (c, m') \<Rightarrow> (Inr c, m'))))))))"

section \<open>Sequences of pool operations\<close>

datatype pool_op =
  GetClient s3_options int
| Cleanup int
| Clear
| Shutdown

fun step :: "pool_op \<Rightarrow> S3ConnectionPool \<times> world \<Rightarrow> S3ConnectionPool \<times> world" where
  "step (GetClient options now) pw = snd (getClient options now pw)"
| "step (Cleanup now) pw = cleanup now pw"
| "step Clear pw = clear pw"
| "step Shutdown pw = shutdown pw"

definition run :: "pool_op list \<Rightarrow> S3ConnectionPool \<times> world \<Rightarrow> S3ConnectionPool \<times> world" where
  "run ops pw = fold step ops pw"

text \<open>The references an entry holds: its client and its two agents.\<close>

definition entry_refs :: "PoolEntry \<Rightarrow> nat set" where
  "entry_refs e = {c_ref (client e)} \<union> set_option (httpsAgent e) \<union> set_option (httpAgent e)"

text \<open>Repeated calls of \<^verbatim>\<open>getClient\<close> with one configuration, at the given times.\<close>

fun getClients ::
  "s3_options \<Rightarrow> int list \<Rightarrow> S3ConnectionPool \<times> world \<Rightarrow> s3client list \<times> S3ConnectionPool \<times> world" where
  "getClients options [] pw = ([], pw)"
| "getClients options (t # ts) pw =
     (case getClient options t pw of
        (c, pw1) \<Rightarrow> (case getClients options ts pw1 of (cs, pw2) \<Rightarrow> (c # cs, pw2)))"

section \<open>Invariants of the store\<close>

text \<open>
  The invariant of a pool and its world: one entry per key; every reference held by a
  stored entry, and every destroyed agent, has been drawn from the counter; no stored
  entry holds a destroyed agent; and entries under different keys share no client and no
  agent.
\<close>

definition pool_inv :: "S3ConnectionPool \<times> world \<Rightarrow> bool" where
  "pool_inv pw =
     (distinct (map fst (pool (fst pw))) \<and>
      destroyed (snd pw) \<subseteq> {..<next_ref (snd pw)} \<and>
      (\<forall>kv\<in>set (pool (fst pw)).
         entry_refs (snd kv) \<subseteq> {..<next_ref (snd pw)} \<and>
         entry_refs (snd kv) \<inter> destroyed (snd pw) = {}) \<and>
      (\<forall>kv\<in>set (pool (fst pw)). \<forall>kv'\<in>set (pool (fst pw)).
         fst kv \<noteq> fst kv' \<longrightarrow> entry_refs (snd kv) \<inter> entry_refs (snd kv') = {}))"

text \<open>
  How one operation changes the store. Every entry stored afterwards was stored before,
  or it stands under one key \<open>key\<close> and is either an entry stored before under that key,
  with the same client and agents, or holds only references drawn during the operation.
  An agent destroyed by the operation belonged to an entry stored before, under a key
  that afterwards holds nothing or an entry built during the operation.
\<close>

definition step_shape :: "S3ConnectionPool \<times> world \<Rightarrow> S3ConnectionPool \<times> world \<Rightarrow> bool" where
  "step_shape pw pw' =
     (distinct (map fst (pool (fst pw'))) \<and>
      next_ref (snd pw) \<le> next_ref (snd pw') \<and>
      destroyed (snd pw) \<subseteq> destroyed (snd pw') \<and>
      (\<exists>key. \<forall>kv'\<in>set (pool (fst pw')).
         kv' \<in> set (pool (fst pw)) \<or>
         (fst kv' = key \<and>
          ((\<exists>kv\<in>set (pool (fst pw)).
              fst kv = key \<and> client (snd kv') = client (snd kv) \<and>
              entry_refs (snd kv') = entry_refs (snd kv)) \<or>
           entry_refs (snd kv') \<subseteq> {next_ref (snd pw)..<next_ref (snd pw')}))) \<and>
      (\<forall>a\<in>destroyed (snd pw') - destroyed (snd pw).
         \<exists>kv\<in>set (pool (fst pw)).
           a \<in> entry_refs (snd kv) \<and>
           (\<forall>kv'\<in>set (pool (fst pw')).
              fst kv' = fst kv \<longrightarrow>
              entry_refs (snd kv') \<subseteq> {next_ref (snd pw)..<next_ref (snd pw')})))"

text \<open>No stored entry holds a reference of the set \<open>X\<close>, whose members have all been drawn.\<close>

definition no_shared_refs :: "nat set \<Rightarrow> S3ConnectionPool \<times> world \<Rightarrow> bool" where
  "no_shared_refs X pw =
     (X \<subseteq> {..<next_ref (snd pw)} \<and>
      (\<forall>kv\<in>set (pool (fst pw)). entry_refs (snd kv) \<inter> X = {}))"

section \<open>Example configurations\<close>

definition cfg_no_region :: s3_options where
  "cfg_no_region =
     \<lparr> o_region = None, o_endpoint = None, o_forcePathStyle = None, o_tls = None,
       o_credentials = None, o_maxAttempts = None \<rparr>"

definition cfg_us_east_1 :: s3_options where
  "cfg_us_east_1 = cfg_no_region\<lparr> o_region := Some ''us-east-1'' \<rparr>"

definition cfg_eu_west_1 :: s3_options where
  "cfg_eu_west_1 = cfg_no_region\<lparr> o_region := Some ''eu-west-1'' \<rparr>"







definition world0 :: world where
  "world0 = \<lparr> agents = (\<lambda>a. None), next_ref = 0, destroyed = {}, timers = {},
              destroy_throws = (\<lambda>a. False) \<rparr>"

definition ttl_1000 :: pool_options where
  "ttl_1000 = \<lparr> p_ttl = Some 1000, p_cleanupInterval = None, p_maxSockets = None,
                p_keepAliveMsecs = None, p_connectionTimeout = None, p_requestTimeout = None \<rparr>"

text \<open>A pool with a TTL of 1000 ms after one \<^verbatim>\<open>getClient\<close> at time 0.\<close>

definition after_first_acquire :: "S3ConnectionPool \<times> world" where
  "after_first_acquire =
     snd (getClient cfg_us_east_1 0 (S3ConnectionPool_new (Some ttl_1000) world0))"

definition zero_options :: pool_options where
  "zero_options = \<lparr> p_ttl = Some 0, p_cleanupInterval = Some 0, p_maxSockets = Some 0,
                    p_keepAliveMsecs = Some 0, p_connectionTimeout = Some 0,
                    p_requestTimeout = Some 0 \<rparr>"

text \<open>A world in which \<^verbatim>\<open>destroy()\<close> of the agent with reference 1 raises.\<close>

definition world_https_raises :: world where
  "world_https_raises = world0\<lparr> destroy_throws := (\<lambda>a. a = 1) \<rparr>"

definition after_acquire_https_raises :: "S3ConnectionPool \<times> world" where
  "after_acquire_https_raises =
     snd (getClient cfg_us_east_1 0 (S3ConnectionPool_new None world_https_raises))"

definition cfg_short_region :: s3_options where
  "cfg_short_region =
     \<lparr> o_region = Some ''x'', o_endpoint = None, o_forcePathStyle = None, o_tls = None,
       o_credentials = Some \<lparr> accessKeyId = Some ''AKID'', secretAccessKey = Some ''SECRET'' \<rparr>,
       o_maxAttempts = None \<rparr>"

definition cfg_five_attempts :: s3_options where
  "cfg_five_attempts = cfg_us_east_1\<lparr> o_maxAttempts := Some 5 \<rparr>"

text \<open>
  A configuration node with credentials and no region, an environment whose lookups find
  nothing, and the module before the first request.
\<close>

definition aws_config_no_region :: aws_config where
  "aws_config_no_region =
     \<lparr> cfg_endpoint = None, cfg_endpointType = None, cfg_forcepathstyle = None,
       cfg_skiptlsverify = None, cfg_region = None, cfg_regionType = Some ''str'',
       cfg_accessKeyId = Some ''AKID'', cfg_accessKeyIdType = Some ''str'',
       cfg_secretAccessKey = Some ''SECRET'', cfg_secretAccessKeyType = Some ''str'',
       cfg_useIamRole = None \<rparr>"

definition env0 :: red_env where
  "env0 = \<lparr> getMessageProperty = (\<lambda>v. Inr None), flow_get = (\<lambda>v. Inr None),
             global_get = (\<lambda>v. Inr None), process_env = (\<lambda>v. None) \<rparr>"

definition module0 :: module_state where
  "module0 = \<lparr> poolInstance = None, m_world = world0 \<rparr>"

text \<open>
  The pool with a TTL of 1000 ms after a second \<^verbatim>\<open>getClient\<close>, for another region, at
  time 800.
\<close>

definition two_entries :: "S3ConnectionPool \<times> world" where
  "two_entries = snd (getClient cfg_eu_west_1 800 after_first_acquire)"


section \<open>The fingerprint and the effective fields\<close>

lemma hexdig_inj: "a < 16 \<Longrightarrow> b < 16 \<Longrightarrow> hexdig a = hexdig b \<Longrightarrow> a = b"
  by (auto simp: hexdig_def char_of_eq_iff take_bit_eq_mod split: if_splits)

lemma json_esc_hd: "\<exists>x xs. json_esc c = x # xs \<and> x \<noteq> dq"
  by (simp add: json_esc_def dq_def bsl_def)

lemma low_char_eq:
  assumes "(of_char c :: nat) < 32" "(of_char c' :: nat) < 32"
    and "hexdig (of_char c div 16) = hexdig (of_char c' div 16)"
    and "hexdig (of_char c mod 16) = hexdig (of_char c' mod 16)"
  shows "c = c'"
proof -
  have d: "(of_char c :: nat) div 16 = of_char c' div 16"
    using assms(1,2,3) by (intro hexdig_inj) auto
  have m: "(of_char c :: nat) mod 16 = of_char c' mod 16"
    using assms(4) by (intro hexdig_inj) auto
  have "(of_char c :: nat) = of_char c'"
    using d m by (metis div_mult_mod_eq)
  then show ?thesis by simp
qed

lemma json_esc_inj: "json_esc c @ r = json_esc c' @ r' \<Longrightarrow> c = c' \<and> r = r'"
  unfolding json_esc_def dq_def bsl_def
  by (auto split: if_splits dest: low_char_eq)

lemma json_body_inj:
  "concat (map json_esc s) @ dq # r = concat (map json_esc s') @ dq # r' \<Longrightarrow> s = s' \<and> r = r'"
proof (induction s arbitrary: s')
  case Nil
  show ?case
  proof (cases s')
    case Nil
    with Nil.prems show ?thesis by simp
  next
    case (Cons c' t')
    obtain x xs where "json_esc c' = x # xs" "x \<noteq> dq"
      using json_esc_hd by blast
    with Nil.prems Cons show ?thesis by simp
  qed
next
  case (Cons c t)
  show ?case
  proof (cases s')
    case Nil
    obtain x xs where "json_esc c = x # xs" "x \<noteq> dq"
      using json_esc_hd by blast
    with Cons.prems Nil show ?thesis by auto
  next
    case (Cons c' t')
    from Cons.prems Cons
    have "json_esc c @ (concat (map json_esc t) @ dq # r) =
          json_esc c' @ (concat (map json_esc t') @ dq # r')"
      by simp
    then have "c = c'" and "concat (map json_esc t) @ dq # r = concat (map json_esc t') @ dq # r'"
      using json_esc_inj by blast+
    with Cons.IH Cons show ?thesis by blast
  qed
qed

lemma json_string_inj: "json_string s @ r = json_string s' @ r' \<Longrightarrow> s = s' \<and> r = r'"
  unfolding json_string_def using json_body_inj [of s r s' r'] by simp

lemma json_string_hd: "json_string s @ r = dq # concat (map json_esc s) @ dq # r"
  by (simp add: json_string_def)

lemma json_bool_inj: "json_bool b @ r = json_bool b' @ r' \<Longrightarrow> b = b' \<and> r = r'"
  by (auto simp: json_bool_def split: if_splits)

lemma json_string_neq_null: "json_string s @ r \<noteq> ''null'' @ r'"
  by (simp add: json_string_def dq_def)

lemma json_nullable_inj: "json_nullable v @ r = json_nullable v' @ r' \<Longrightarrow> v = v' \<and> r = r'"
proof (cases v; cases v')
  fix s s' assume "v = Some s" "v' = Some s'" "json_nullable v @ r = json_nullable v' @ r'"
  then show ?thesis using json_string_inj [of s r s' r'] by (simp add: json_nullable_def)
next
  fix s assume "v = Some s" "v' = None" "json_nullable v @ r = json_nullable v' @ r'"
  then show ?thesis using json_string_neq_null [of s r r'] by (simp add: json_nullable_def)
next
  fix s assume "v = None" "v' = Some s" "json_nullable v @ r = json_nullable v' @ r'"
  then show ?thesis using json_string_neq_null [of s r' r] by (simp add: json_nullable_def)
qed (simp add: json_nullable_def)

lemma json_name_simps:
  "json_string ''accessKeyId'' = dq # ''accessKeyId'' @ [dq]"
  "json_string ''secretAccessKey'' = dq # ''secretAccessKey'' @ [dq]"
  by (simp_all add: json_string_def json_esc_def dq_def bsl_def)

lemma json_credentials_inj:
  "json_credentials c @ r = json_credentials c' @ r' \<Longrightarrow> c = c' \<and> r = r'"
proof -
  assume eq: "json_credentials c @ r = json_credentials c' @ r'"
  obtain a s where c: "c = \<lparr>accessKeyId = a, secretAccessKey = s\<rparr>" by (cases c) auto
  obtain a' s' where c': "c' = \<lparr>accessKeyId = a', secretAccessKey = s'\<rparr>" by (cases c') auto
  have str: "\<And>x y u v. json_string x @ u = json_string y @ v \<Longrightarrow> x = y \<and> u = v"
    by (rule json_string_inj)
  have nq: "\<And>x u v. json_string x @ u \<noteq> CHR ''}'' # v"
    by (simp add: json_string_def dq_def)
  show ?thesis
    using eq unfolding c c'
    apply (cases a; cases a'; cases s; cases s')
    apply (simp_all add: json_credentials_def json_member_def json_name_simps)
    apply (auto simp: dq_def dest!: str)
    done
qed


lemma json_credentials_neq_null: "json_credentials c @ r \<noteq> ''null'' @ r'"
  by (simp add: json_credentials_def)

lemma json_cred_opt_inj:
  "(case v of None \<Rightarrow> ''null'' | Some c \<Rightarrow> json_credentials c) @ r =
   (case v' of None \<Rightarrow> ''null'' | Some c \<Rightarrow> json_credentials c) @ r' \<Longrightarrow> v = v' \<and> r = r'"
proof (cases v; cases v')
  fix c c' assume "v = Some c" "v' = Some c'"
    and "(case v of None \<Rightarrow> ''null'' | Some c \<Rightarrow> json_credentials c) @ r =
         (case v' of None \<Rightarrow> ''null'' | Some c \<Rightarrow> json_credentials c) @ r'"
  then show ?thesis using json_credentials_inj [of c r c' r'] by simp
next
  fix c assume "v = Some c" "v' = None"
    and "(case v of None \<Rightarrow> ''null'' | Some c \<Rightarrow> json_credentials c) @ r =
         (case v' of None \<Rightarrow> ''null'' | Some c \<Rightarrow> json_credentials c) @ r'"
  then show ?thesis using json_credentials_neq_null [of c r r'] by simp
next
  fix c assume "v = None" "v' = Some c"
    and "(case v of None \<Rightarrow> ''null'' | Some c \<Rightarrow> json_credentials c) @ r =
         (case v' of None \<Rightarrow> ''null'' | Some c \<Rightarrow> json_credentials c) @ r'"
  then show ?thesis using json_credentials_neq_null [of c r' r] by simp
qed simp

lemma JSON_stringify_inj:
  assumes "JSON_stringify n = JSON_stringify n'"
  shows "n = n'"
proof -
  let ?k = "\<lambda>name. json_string name @ '':''"
  from assms have 1:
    "json_string (n_region n) @ ('','' @ ?k ''endpoint'' @ json_nullable (n_endpoint n) @
       '','' @ ?k ''forcePathStyle'' @ json_bool (n_forcePathStyle n) @
       '','' @ ?k ''tls'' @ json_bool (n_tls n) @
       '','' @ ?k ''credentials'' @
          (case n_credentials n of None \<Rightarrow> ''null'' | Some c \<Rightarrow> json_credentials c) @
       '','' @ ?k ''useIamRole'' @ json_bool (n_useIamRole n) @ ''}'') =
     json_string (n_region n') @ ('','' @ ?k ''endpoint'' @ json_nullable (n_endpoint n') @
       '','' @ ?k ''forcePathStyle'' @ json_bool (n_forcePathStyle n') @
       '','' @ ?k ''tls'' @ json_bool (n_tls n') @
       '','' @ ?k ''credentials'' @
          (case n_credentials n' of None \<Rightarrow> ''null'' | Some c \<Rightarrow> json_credentials c) @
       '','' @ ?k ''useIamRole'' @ json_bool (n_useIamRole n') @ ''}'')"
    by (simp add: JSON_stringify_def json_member_def)
  from json_string_inj [OF 1] have r: "n_region n = n_region n'" and 2:
    "json_nullable (n_endpoint n) @ ('','' @ ?k ''forcePathStyle'' @ json_bool (n_forcePathStyle n) @
       '','' @ ?k ''tls'' @ json_bool (n_tls n) @
       '','' @ ?k ''credentials'' @
          (case n_credentials n of None \<Rightarrow> ''null'' | Some c \<Rightarrow> json_credentials c) @
       '','' @ ?k ''useIamRole'' @ json_bool (n_useIamRole n) @ ''}'') =
     json_nullable (n_endpoint n') @ ('','' @ ?k ''forcePathStyle'' @ json_bool (n_forcePathStyle n') @
       '','' @ ?k ''tls'' @ json_bool (n_tls n') @
       '','' @ ?k ''credentials'' @
          (case n_credentials n' of None \<Rightarrow> ''null'' | Some c \<Rightarrow> json_credentials c) @
       '','' @ ?k ''useIamRole'' @ json_bool (n_useIamRole n') @ ''}'')"
    by simp_all
  from json_nullable_inj [OF 2] have e: "n_endpoint n = n_endpoint n'" and 3:
    "json_bool (n_forcePathStyle n) @ ('','' @ ?k ''tls'' @ json_bool (n_tls n) @
       '','' @ ?k ''credentials'' @
          (case n_credentials n of None \<Rightarrow> ''null'' | Some c \<Rightarrow> json_credentials c) @
       '','' @ ?k ''useIamRole'' @ json_bool (n_useIamRole n) @ ''}'') =
     json_bool (n_forcePathStyle n') @ ('','' @ ?k ''tls'' @ json_bool (n_tls n') @
       '','' @ ?k ''credentials'' @
          (case n_credentials n' of None \<Rightarrow> ''null'' | Some c \<Rightarrow> json_credentials c) @
       '','' @ ?k ''useIamRole'' @ json_bool (n_useIamRole n') @ ''}'')"
    by simp_all
  from json_bool_inj [OF 3] have f: "n_forcePathStyle n = n_forcePathStyle n'" and 4:
    "json_bool (n_tls n) @ ('','' @ ?k ''credentials'' @
          (case n_credentials n of None \<Rightarrow> ''null'' | Some c \<Rightarrow> json_credentials c) @
       '','' @ ?k ''useIamRole'' @ json_bool (n_useIamRole n) @ ''}'') =
     json_bool (n_tls n') @ ('','' @ ?k ''credentials'' @
          (case n_credentials n' of None \<Rightarrow> ''null'' | Some c \<Rightarrow> json_credentials c) @
       '','' @ ?k ''useIamRole'' @ json_bool (n_useIamRole n') @ ''}'')"
    by simp_all
  from json_bool_inj [OF 4] have t: "n_tls n = n_tls n'" and 5:
    "(case n_credentials n of None \<Rightarrow> ''null'' | Some c \<Rightarrow> json_credentials c) @
       ('','' @ ?k ''useIamRole'' @ json_bool (n_useIamRole n) @ ''}'') =
     (case n_credentials n' of None \<Rightarrow> ''null'' | Some c \<Rightarrow> json_credentials c) @
       ('','' @ ?k ''useIamRole'' @ json_bool (n_useIamRole n') @ ''}'')"
    by simp_all
  from json_cred_opt_inj [OF 5] have c: "n_credentials n = n_credentials n'" and 6:
    "json_bool (n_useIamRole n) @ ''}'' = json_bool (n_useIamRole n') @ ''}''"
    by simp_all
  from json_bool_inj [OF 6] have u: "n_useIamRole n = n_useIamRole n'"
    by simp
  from r e f t c u show ?thesis by simp
qed

lemma normalize_useIamRole: "n_useIamRole (normalize a) = (n_credentials (normalize a) = None)"
  by (simp add: normalize_def split: option.splits)


lemma generateKey_empty_as_absent: "generateKey options = generateKey (empty_as_absent options)"
proof -
  have "normalize options = normalize (empty_as_absent options)"
    by (simp add: normalize_def empty_as_absent_def truthy_def)
  then show ?thesis by (simp add: generateKey_def)
qed





section \<open>The map, destruction and the three cases of getClient\<close>

lemma map_of_Map_set: "map_of (Map_set k v m) = (map_of m)(k \<mapsto> v)"
  by (induction m) (auto simp: fun_eq_iff)

lemma map_of_Map_delete: "map_of (Map_delete k m) = (map_of m)(k := None)"
  by (induction m) (auto simp: Map_delete_def fun_eq_iff)

lemma Map_get_Map_set: "Map_get (Map_set k v m) k' = (if k' = k then Some v else Map_get m k')"
  by (simp add: Map_get_def map_of_Map_set)

lemma Map_get_Map_delete: "Map_get (Map_delete k m) k' = (if k' = k then None else Map_get m k')"
  by (simp add: Map_get_def map_of_Map_delete)

lemma keys_Map_set: "fst ` set (Map_set k v m) = insert k (fst ` set m)"
  by (induction m) auto

lemma distinct_Map_set: "distinct (map fst m) \<Longrightarrow> distinct (map fst (Map_set k v m))"
  by (induction m) (auto simp: keys_Map_set)

lemma distinct_Map_delete: "distinct (map fst m) \<Longrightarrow> distinct (map fst (Map_delete k m))"
  by (simp add: Map_delete_def distinct_map_filter)

lemma destroy_no_error: "fst (destroy e w) = None"
  by (simp add: destroy_def split: prod.splits option.splits)

lemma snd_destroy:
  "snd (destroy e w) = w\<lparr>destroyed := destroyed w \<union> destroy_closes (destroy_throws w) e\<rparr>"
  by (auto simp: destroy_def destroy_body_def agent_destroy_def destroy_closes_def insert_commute
      split: option.splits prod.splits)

lemma destroy_closes_no_throw:
  "\<forall>a \<in> entry_agents e. \<not> throws a \<Longrightarrow> destroy_closes throws e = entry_agents e"
  by (auto simp: destroy_closes_def entry_agents_def split: option.splits)

lemma destroy_closes_subset: "destroy_closes throws e \<subseteq> entry_agents e"
  by (auto simp: destroy_closes_def entry_agents_def split: option.splits if_splits)

lemma createClient_eq:
  "createClient options p w =
     ((\<lparr> c_ref = next_ref w + 2, c_options = options,
          c_httpsAgent = next_ref w, c_httpAgent = next_ref w + 1,
          c_connectionTimeout = connectionTimeout p, c_requestTimeout = requestTimeout p,
          c_maxAttempts = or_default (o_maxAttempts options) 3 \<rparr>, next_ref w, next_ref w + 1),
      w\<lparr> agents := agents (snd (createAgents p w)), next_ref := next_ref w + 3 \<rparr>)"
  by (simp add: createClient_def createAgents_def Let_def)

lemma getClient_hit:
  assumes "Map_get (pool p) (generateKey options) = Some e" "\<not> isExpired now (ttl p) e"
  shows "getClient options now (p, w) =
           (client e, p\<lparr>pool := Map_set (generateKey options) (touch now e) (pool p)\<rparr>, w)"
  using assms by (simp add: getClient_def Let_def)

lemma getClient_miss:
  assumes "Map_get (pool p) (generateKey options) = None"
  shows "getClient options now (p, w) =
           (fst (fst (createClient options p w)),
            p\<lparr>pool := Map_set (generateKey options)
                     \<lparr> client = fst (fst (createClient options p w)),
                       httpsAgent = Some (next_ref w), httpAgent = Some (next_ref w + 1),
                       createdAt = now, lastUsedAt = now, useCount = 1 \<rparr> (pool p)\<rparr>,
            snd (createClient options p w))"
  using assms
  by (simp add: getClient_def Let_def createClient_def createAgents_def touch_def PoolEntry_new_def
      split: prod.splits)

lemma getClient_expired:
  assumes "Map_get (pool p) (generateKey options) = Some e" "isExpired now (ttl p) e"
  shows "getClient options now (p, w) =
           (fst (fst (createClient options p (snd (destroy e w)))),
            p\<lparr>pool := Map_set (generateKey options)
                     \<lparr> client = fst (fst (createClient options p (snd (destroy e w)))),
                       httpsAgent = Some (next_ref w), httpAgent = Some (next_ref w + 1),
                       createdAt = now, lastUsedAt = now, useCount = 1 \<rparr>
                     (Map_delete (generateKey options) (pool p))\<rparr>,
            snd (createClient options p (snd (destroy e w))))"
  using assms
  by (simp add: getClient_def Let_def createClient_def createAgents_def touch_def PoolEntry_new_def
      snd_destroy split: prod.splits)

lemma Map_set_Map_set: "Map_set k v (Map_set k v' m) = Map_set k v m"
  by (induction m) auto

lemma isExpired_touch: "isExpired t ttl' (touch now e) = isExpired t ttl' e"
  by (simp add: isExpired_def touch_def)

lemma getClients_hit:
  assumes "Map_get (pool p) (generateKey options) = Some e"
    and "\<forall>t\<in>set ts. \<not> isExpired t (ttl p) e"
  shows "getClients options ts (p, w) =
           (replicate (length ts) (client e),
            (if ts = [] then p
             else p\<lparr>pool := Map_set (generateKey options)
                      (e\<lparr>lastUsedAt := last ts, useCount := useCount e + length ts\<rparr>) (pool p)\<rparr>),
            w)"
  using assms
proof (induction ts arbitrary: p e)
  case Nil
  then show ?case by simp
next
  case (Cons t ts)
  let ?k = "generateKey options"
  let ?p1 = "p\<lparr>pool := Map_set ?k (touch t e) (pool p)\<rparr>"
  have hit: "getClient options t (p, w) = (client e, ?p1, w)"
    using Cons.prems by (intro getClient_hit) auto
  have g: "Map_get (pool ?p1) ?k = Some (touch t e)"
    by (simp add: Map_get_Map_set)
  have ex: "\<forall>t'\<in>set ts. \<not> isExpired t' (ttl ?p1) (touch t e)"
    using Cons.prems by (simp add: isExpired_touch)
  note ih = Cons.IH [OF g ex]
  show ?case
    using ih by (simp add: hit Map_set_Map_set touch_def)
qed


lemma getClient_expired_fields:
  assumes "Map_get (pool p) (generateKey options) = Some e" "isExpired now (ttl p) e"
  shows "case getClient options now (p, w) of
           (c, p', w') \<Rightarrow>
             c_ref c = next_ref w + 2 \<and> c_options c = options \<and>
             Map_get (pool p') (generateKey options) =
               Some \<lparr> client = c, httpsAgent = Some (next_ref w), httpAgent = Some (next_ref w + 1),
                      createdAt = now, lastUsedAt = now, useCount = 1 \<rparr> \<and>
             destroyed w' = destroyed w \<union> destroy_closes (destroy_throws w) e \<and>
             next_ref w' = next_ref w + 3"
  by (simp add: getClient_expired [OF assms] createClient_eq snd_destroy Map_get_Map_set)

lemmas example_defs =
  after_first_acquire_def getClient_def S3ConnectionPool_new_def Let_def ttl_1000_def
  world0_def or_default_def truthy_num_def Map_get_def createClient_def createAgents_def
  touch_def PoolEntry_new_def DEFAULT_TTL_def DEFAULT_CLEANUP_INTERVAL_def DEFAULT_MAX_SOCKETS_def
  DEFAULT_KEEP_ALIVE_MSECS_def DEFAULT_CONNECTION_TIMEOUT_def DEFAULT_REQUEST_TIMEOUT_def
  isExpired_def destroy_def destroy_body_def agent_destroy_def Map_delete_def destroy_closes_def

section \<open>Reuse within the TTL, rebuild after it\<close>

text \<open>
  C2. Let the store hold an entry \<open>e\<close> for the configuration. Calls of \<open>getClient\<close> with
  that configuration at times whose distance to \<open>createdAt e\<close> is at most the TTL all
  return the client of \<open>e\<close>, build nothing and destroy nothing, and leave the entry with
  its creation time, with the time of the last call, and with a use counter that has
  grown by one per call. A call at a time whose distance to \<open>createdAt e\<close> exceeds the
  TTL destroys \<open>e\<close> and stores, under the same key, a new entry with a new client, new
  agents, the time of the call as creation time and a use counter of 1; the time of the
  last use of \<open>e\<close> plays no part.
\<close>

theorem getClient_ttl_reuse_and_rebuild:
  assumes "Map_get (pool p) (generateKey options) = Some e"
  shows "((\<forall>t\<in>set ts. t - createdAt e \<le> ttl p) \<longrightarrow>
            getClients options ts (p, w) =
              (replicate (length ts) (client e),
               (if ts = [] then p
                else p\<lparr>pool := Map_set (generateKey options)
                         (e\<lparr>lastUsedAt := last ts, useCount := useCount e + length ts\<rparr>) (pool p)\<rparr>),
               w)) \<and>
         (ttl p < now - createdAt e \<longrightarrow>
            (case getClient options now (p, w) of
               (c, p', w') \<Rightarrow>
                 c_ref c = next_ref w + 2 \<and>
                 (c_ref (client e) < next_ref w \<longrightarrow> c \<noteq> client e) \<and>
                 Map_get (pool p') (generateKey options) =
                   Some \<lparr> client = c, httpsAgent = Some (next_ref w),
                          httpAgent = Some (next_ref w + 1),
                          createdAt = now, lastUsedAt = now, useCount = 1 \<rparr> \<and>
                 destroyed w' = destroyed w \<union> destroy_closes (destroy_throws w) e))"
proof (intro conjI impI)
  assume "\<forall>t\<in>set ts. t - createdAt e \<le> ttl p"
  then have "\<forall>t\<in>set ts. \<not> isExpired t (ttl p) e"
    by (auto simp: isExpired_def)
  with assms show "getClients options ts (p, w) =
              (replicate (length ts) (client e),
               (if ts = [] then p
                else p\<lparr>pool := Map_set (generateKey options)
                         (e\<lparr>lastUsedAt := last ts, useCount := useCount e + length ts\<rparr>) (pool p)\<rparr>),
               w)"
    by (rule getClients_hit)
next
  assume "ttl p < now - createdAt e"
  then have "isExpired now (ttl p) e"
    by (simp add: isExpired_def)
  from getClient_expired_fields [OF assms this, of w]
  show "case getClient options now (p, w) of
               (c, p', w') \<Rightarrow>
                 c_ref c = next_ref w + 2 \<and>
                 (c_ref (client e) < next_ref w \<longrightarrow> c \<noteq> client e) \<and>
                 Map_get (pool p') (generateKey options) =
                   Some \<lparr> client = c, httpsAgent = Some (next_ref w),
                          httpAgent = Some (next_ref w + 1),
                          createdAt = now, lastUsedAt = now, useCount = 1 \<rparr> \<and>
                 destroyed w' = destroyed w \<union> destroy_closes (destroy_throws w) e"
    by (auto split: prod.splits)
qed

theorem getClient_ttl_witness:
  "(case getClients cfg_us_east_1 [500] after_first_acquire of
      (cs, p', w') \<Rightarrow>
        map c_ref cs = [3] \<and>
        map_option useCount (Map_get (pool p') (generateKey cfg_us_east_1)) = Some 2 \<and>
        map_option createdAt (Map_get (pool p') (generateKey cfg_us_east_1)) = Some 0 \<and>
        destroyed w' = {}) \<and>
   (case getClient cfg_us_east_1 1500 after_first_acquire of
      (c, p', w') \<Rightarrow>
        c_ref c = 6 \<and>
        map_option useCount (Map_get (pool p') (generateKey cfg_us_east_1)) = Some 1 \<and>
        map_option createdAt (Map_get (pool p') (generateKey cfg_us_east_1)) = Some 1500 \<and>
        destroyed w' = {1, 2})"
proof -
  define p where p: "p = fst after_first_acquire"
  define w where w: "w = snd after_first_acquire"
  define c where c: "c = fst (getClient cfg_us_east_1 0 (S3ConnectionPool_new (Some ttl_1000) world0))"
  have pw: "after_first_acquire = (p, w)"
    by (simp add: p w)
  have look: "Map_get (pool p) (generateKey cfg_us_east_1) =
        Some \<lparr> client = c, httpsAgent = Some 1, httpAgent = Some 2, createdAt = 0,
               lastUsedAt = 0, useCount = 1 \<rparr>"
    unfolding p c by (simp add: example_defs)
  have vals: "ttl p = 1000" "next_ref w = 4" "destroyed w = {}" "destroy_throws w = (\<lambda>a. False)"
    "c_ref c = 3"
    unfolding p w c by (simp_all add: example_defs)
  from getClient_ttl_reuse_and_rebuild [OF look, of "[500]" w 1500]
  show ?thesis
    unfolding pw using vals
    by (simp add: destroy_closes_def Map_get_Map_set split: prod.splits)
qed

section \<open>Falsy overrides of the constructor's options\<close>

text \<open>
  C10. An option of the constructor that is given as 0 is falsy, so the constructor takes
  the built-in default instead: 30 minutes for \<open>ttl\<close>, 5 minutes for \<open>cleanupInterval\<close>,
  50 for \<open>maxSockets\<close>, 1000 for \<open>keepAliveMsecs\<close>, 10000 for \<open>connectionTimeout\<close> and
  30000 for \<open>requestTimeout\<close>.
\<close>

theorem constructor_falsy_override_uses_default:
  "(p_ttl opts = Some 0 \<longrightarrow>
      ttl (fst (S3ConnectionPool_new (Some opts) w)) = DEFAULT_TTL) \<and>
   (p_cleanupInterval opts = Some 0 \<longrightarrow>
      cleanupInterval (fst (S3ConnectionPool_new (Some opts) w)) = DEFAULT_CLEANUP_INTERVAL) \<and>
   (p_maxSockets opts = Some 0 \<longrightarrow>
      maxSockets (fst (S3ConnectionPool_new (Some opts) w)) = DEFAULT_MAX_SOCKETS) \<and>
   (p_keepAliveMsecs opts = Some 0 \<longrightarrow>
      keepAliveMsecs (fst (S3ConnectionPool_new (Some opts) w)) = DEFAULT_KEEP_ALIVE_MSECS) \<and>
   (p_connectionTimeout opts = Some 0 \<longrightarrow>
      connectionTimeout (fst (S3ConnectionPool_new (Some opts) w)) = DEFAULT_CONNECTION_TIMEOUT) \<and>
   (p_requestTimeout opts = Some 0 \<longrightarrow>
      requestTimeout (fst (S3ConnectionPool_new (Some opts) w)) = DEFAULT_REQUEST_TIMEOUT)"
  by (simp add: S3ConnectionPool_new_def Let_def or_default_def truthy_num_def)

theorem constructor_falsy_override_witness:
  "ttl (fst (S3ConnectionPool_new (Some zero_options) world0)) = 1800000 \<and>
   cleanupInterval (fst (S3ConnectionPool_new (Some zero_options) world0)) = 300000 \<and>
   maxSockets (fst (S3ConnectionPool_new (Some zero_options) world0)) = 50 \<and>
   keepAliveMsecs (fst (S3ConnectionPool_new (Some zero_options) world0)) = 1000 \<and>
   connectionTimeout (fst (S3ConnectionPool_new (Some zero_options) world0)) = 10000 \<and>
   requestTimeout (fst (S3ConnectionPool_new (Some zero_options) world0)) = 30000"
  using constructor_falsy_override_uses_default [of zero_options world0]
  by (simp add: zero_options_def DEFAULT_TTL_def DEFAULT_CLEANUP_INTERVAL_def
      DEFAULT_MAX_SOCKETS_def DEFAULT_KEEP_ALIVE_MSECS_def DEFAULT_CONNECTION_TIMEOUT_def
      DEFAULT_REQUEST_TIMEOUT_def)

section \<open>Destruction of an entry\<close>

text \<open>
  C7. Both calls of \<^verbatim>\<open>destroy()\<close> stand in one \<^verbatim>\<open>try\<close> block. In a world where closing
  the https agent (reference 1) raises and closing the http agent (reference 2) would
  not, \<open>destroy\<close> on the entry holding both returns without an error and leaves the
  world as it was: the http agent is not closed. After \<open>clear\<close> the store no longer holds
  the entry, and the http agent is still open.
\<close>

theorem destroy_leaves_http_agent_open_when_https_raises:
  "(case after_acquire_https_raises of
      (p, w) \<Rightarrow>
        map (\<lambda>kv. (httpsAgent (snd kv), httpAgent (snd kv))) (pool p) = [(Some 1, Some 2)] \<and>
        destroy_throws w 1 \<and> \<not> destroy_throws w 2 \<and>
        map (\<lambda>kv. destroy (snd kv) w) (pool p) = [(None, w)] \<and>
        2 \<notin> destroyed w \<and>
        pool (fst (clear (p, w))) = [] \<and> 2 \<notin> destroyed (snd (clear (p, w))))"
  by (simp add: after_acquire_https_raises_def world_https_raises_def example_defs clear_def
      destroy_all_def)

section \<open>The key shown by getStats\<close>

lemma getStats_fields:
  "totalConnections (getStats now p) = length (pool p) \<and>
   map st_age (connections (getStats now p)) = map (\<lambda>kv. now - createdAt (snd kv)) (pool p) \<and>
   map st_lastUsed (connections (getStats now p)) =
     map (\<lambda>kv. now - lastUsedAt (snd kv)) (pool p) \<and>
   map st_useCount (connections (getStats now p)) = map (\<lambda>kv. useCount (snd kv)) (pool p) \<and>
   map st_isExpired (connections (getStats now p)) =
     map (\<lambda>kv. ttl p < now - createdAt (snd kv)) (pool p) \<and>
   map st_key (connections (getStats now p)) = map (\<lambda>kv. take 100 (fst kv) @ ''...'') (pool p)"
  by (simp add: getStats_def isExpired_def comp_def)

text \<open>
  C8. \<open>getStats\<close> shows the first 100 characters of the key. For a one-letter region and
  no endpoint the member \<^verbatim>\<open>accessKeyId\<close> of the credentials starts at position 79, so the
  snapshot of the pool holding the entry for \<open>cfg_short_region\<close> shows the whole access
  key id.
\<close>

theorem getStats_key_shows_access_key:
  "(case getClient cfg_short_region 0 (S3ConnectionPool_new None world0) of
      (c, p, w) \<Rightarrow>
        map (\<lambda>st. drop 79 (st_key st)) (connections (getStats 0 p)) =
          [json_member ''accessKeyId'' (json_string ''AKID'') @ '',...''])"
  by (simp add: example_defs getStats_def cfg_short_region_def generateKey_def normalize_def
      truthy_def JSON_stringify_def json_member_def json_string_def json_esc_def json_nullable_def
      json_bool_def json_credentials_def dq_def bsl_def)

section \<open>Options outside the key\<close>

lemma getClient_builds:
  assumes "case Map_get (pool p) (generateKey options) of
             None \<Rightarrow> True | Some e \<Rightarrow> isExpired now (ttl p) e"
  shows "case getClient options now (p, w) of
           (c, p', w') \<Rightarrow>
             c_options c = options \<and> c_maxAttempts c = or_default (o_maxAttempts options) 3 \<and>
             c_ref c = next_ref w + 2 \<and>
             Map_get (pool p') (generateKey options) =
               Some \<lparr> client = c, httpsAgent = Some (next_ref w), httpAgent = Some (next_ref w + 1),
                      createdAt = now, lastUsedAt = now, useCount = 1 \<rparr> \<and>
             ttl p' = ttl p"
proof (cases "Map_get (pool p) (generateKey options)")
  case None
  then show ?thesis
    by (simp add: getClient_miss createClient_eq Map_get_Map_set)
next
  case (Some e)
  with assms have "isExpired now (ttl p) e" by simp
  with Some show ?thesis
    by (simp add: getClient_expired createClient_eq Map_get_Map_set snd_destroy)
qed

text \<open>
  C9. The key is computed from the normalized object alone. Let \<open>a\<close> and \<open>b\<close> have the
  same normalized object (they may differ in \<open>maxAttempts\<close>), let a call with \<open>a\<close> at
  \<open>t1\<close> build the entry (none is stored, or the stored one has expired), and let a call
  with \<open>b\<close> follow at \<open>t2\<close> within the TTL. Then both have the same key, and the second
  call builds nothing and returns the client of the first, whose options are those of
  \<open>a\<close>, its \<open>maxAttempts\<close> included.
\<close>

theorem key_ignores_other_client_options:
  assumes "normalize a = normalize b"
    and "case Map_get (pool p) (generateKey a) of
           None \<Rightarrow> True | Some e \<Rightarrow> isExpired t1 (ttl p) e"
    and "t2 - t1 \<le> ttl p"
  shows "generateKey b = generateKey a \<and>
         (case getClient a t1 (p, w) of
            (c1, pw1) \<Rightarrow>
              (case getClient b t2 pw1 of
                 (c2, pw2) \<Rightarrow>
                   c2 = c1 \<and> c_options c2 = a \<and>
                   c_maxAttempts c2 = or_default (o_maxAttempts a) 3 \<and>
                   snd pw2 = snd pw1))"
proof -
  have key: "generateKey b = generateKey a"
    using assms(1) by (simp add: generateKey_def)
  obtain c1 p1 w1 where g1: "getClient a t1 (p, w) = (c1, p1, w1)"
    by (cases "getClient a t1 (p, w)") auto
  let ?e = "\<lparr> client = c1, httpsAgent = Some (next_ref w), httpAgent = Some (next_ref w + 1),
              createdAt = t1, lastUsedAt = t1, useCount = 1 \<rparr>"
  from getClient_builds [OF assms(2), of w] g1
  have c1: "c_options c1 = a" "c_maxAttempts c1 = or_default (o_maxAttempts a) 3"
    and look: "Map_get (pool p1) (generateKey b) = Some ?e"
    and ttl: "ttl p1 = ttl p"
    by (simp_all add: key)
  have "\<not> isExpired t2 (ttl p1) ?e"
    using assms(3) by (simp add: isExpired_def ttl)
  from getClient_hit [OF look this, of w1]
  show ?thesis
    by (simp add: key g1 c1)
qed

theorem key_ignores_other_client_options_witness:
  "generateKey cfg_five_attempts = generateKey cfg_us_east_1 \<and>
   o_maxAttempts cfg_five_attempts = Some 5 \<and>
   (case getClient cfg_us_east_1 0 (S3ConnectionPool_new (Some ttl_1000) world0) of
      (c1, pw1) \<Rightarrow>
        (case getClient cfg_five_attempts 500 pw1 of
           (c2, pw2) \<Rightarrow> c2 = c1 \<and> c_options c2 = cfg_us_east_1 \<and> c_maxAttempts c2 = 3 \<and>
             snd pw2 = snd pw1))"
proof -
  define p where p: "p = fst (S3ConnectionPool_new (Some ttl_1000) world0)"
  define w where w: "w = snd (S3ConnectionPool_new (Some ttl_1000) world0)"
  have pw: "S3ConnectionPool_new (Some ttl_1000) world0 = (p, w)"
    by (simp add: p w)
  have n: "normalize cfg_us_east_1 = normalize cfg_five_attempts"
    by (simp add: normalize_def cfg_five_attempts_def)
  have miss: "case Map_get (pool p) (generateKey cfg_us_east_1) of
           None \<Rightarrow> True | Some e \<Rightarrow> isExpired 0 (ttl p) e"
    unfolding p by (simp add: example_defs)
  have t: "(500::int) - 0 \<le> ttl p"
    unfolding p by (simp add: example_defs)
  from key_ignores_other_client_options [OF n miss t, of w]
  show ?thesis
    unfolding pw
    by (simp add: cfg_five_attempts_def cfg_us_east_1_def cfg_no_region_def or_default_def
        truthy_num_def split: prod.splits)
qed

section \<open>A configuration without a region\<close>

text \<open>
  C4, as the claim states it, fails on the pool: \<open>getClient\<close> accepts options without a
  region, the key is computed with the region \<^verbatim>\<open>us-east-1\<close>, and after a call for
  \<^verbatim>\<open>us-east-1\<close> the options without a region are served the client built for
  \<^verbatim>\<open>us-east-1\<close>.
\<close>

theorem pool_serves_default_region_for_missing_region:
  "o_region cfg_no_region = None \<and>
   n_region (normalize cfg_no_region) = ''us-east-1'' \<and>
   (case getClient cfg_us_east_1 0 (S3ConnectionPool_new None world0) of
      (c1, pw1) \<Rightarrow>
        (case getClient cfg_no_region 1 pw1 of
           (c2, pw2) \<Rightarrow> c2 = c1 \<and> o_region (c_options c2) = Some ''us-east-1''))"
proof -
  have n: "normalize cfg_no_region = normalize cfg_us_east_1"
    by (simp add: normalize_def cfg_us_east_1_def cfg_no_region_def truthy_def)
  then have k: "generateKey cfg_no_region = generateKey cfg_us_east_1"
    by (simp add: generateKey_def)
  have 1: "o_region cfg_no_region = None"
    by (simp add: cfg_no_region_def)
  have 2: "n_region (normalize cfg_no_region) = ''us-east-1''"
    by (simp add: normalize_def cfg_no_region_def truthy_def)
  have 3: "case getClient cfg_us_east_1 0 (S3ConnectionPool_new None world0) of
      (c1, pw1) \<Rightarrow>
        (case getClient cfg_no_region 1 pw1 of
           (c2, pw2) \<Rightarrow> c2 = c1 \<and> o_region (c_options c2) = Some ''us-east-1'')"
    by (simp add: k example_defs) (simp add: cfg_us_east_1_def)
  from 1 2 3 show ?thesis by blast
qed

lemma getValue_falsy: "\<not> truthy v \<Longrightarrow> getValue env v t = Inr None"
  by (simp add: getValue_def)

lemma configureS3_no_region:
  assumes "\<not> truthy (cfg_region cfg)"
  shows "configureS3 (Some cfg) env now m =
     (case getValue env (cfg_accessKeyId cfg) (cfg_accessKeyIdType cfg) of
        Inl e \<Rightarrow> (Inl e, m)
      | Inr a \<Rightarrow>
     (case getValue env (cfg_secretAccessKey cfg) (cfg_secretAccessKeyType cfg) of
        Inl e \<Rightarrow> (Inl e, m)
      | Inr s \<Rightarrow>
     (case getValue env (cfg_endpoint cfg) (or_else (cfg_endpointType cfg) (Some ''str'')) of
        Inl e \<Rightarrow> (Inl e, m)
      | Inr ep \<Rightarrow> (Inl (Error ''Region is missing in AWS S3 configuration''), m))))"
proof -
  have rv: "getValue env (cfg_region cfg) t = Inr None" for t
    using assms by (rule getValue_falsy)
  have oe: "or_else None (cfg_region cfg) = cfg_region cfg"
    by (simp add: or_else_def truthy_def)
  show ?thesis
    unfolding configureS3_def
    by (cases "getValue env (cfg_accessKeyId cfg) (cfg_accessKeyIdType cfg)";
        cases "getValue env (cfg_secretAccessKey cfg) (cfg_secretAccessKeyType cfg)";
        cases "getValue env (cfg_endpoint cfg) (or_else (cfg_endpointType cfg) (Some ''str''))")
       (simp_all add: rv oe assms)
qed

text \<open>
  C4, amended. \<open>configureS3\<close> rejects a configuration node whose region is missing or
  empty: it returns an error and leaves the module's state, the pool included, as it
  was; when no lookup raises, the error is the one of line 30. The pool does not check
  the region. For options without a region, \<open>normalize\<close> takes \<^verbatim>\<open>us-east-1\<close> and the key
  is the key of the same options with the region \<^verbatim>\<open>us-east-1\<close>; \<open>getClient\<close> accepts
  them: when the store holds an unexpired entry under that key, it touches the entry and
  returns its client, and otherwise it builds a client from the options as they are and
  stores the new entry under that key.
\<close>

theorem region_checked_by_configureS3_not_by_pool:
  "(\<not> truthy (cfg_region cfg) \<longrightarrow>
      snd (configureS3 (Some cfg) env now m) = m \<and>
      isl (fst (configureS3 (Some cfg) env now m)) \<and>
      ((\<forall>v. \<not> isl (getMessageProperty env v) \<and> \<not> isl (flow_get env v) \<and>
            \<not> isl (global_get env v)) \<longrightarrow>
         fst (configureS3 (Some cfg) env now m) =
           Inl (Error ''Region is missing in AWS S3 configuration''))) \<and>
   (o_region options = None \<longrightarrow>
      n_region (normalize options) = ''us-east-1'' \<and>
      generateKey options = generateKey (options\<lparr> o_region := Some ''us-east-1'' \<rparr>) \<and>
      (\<forall>e. Map_get (pool p) (generateKey (options\<lparr> o_region := Some ''us-east-1'' \<rparr>)) = Some e \<and>
           \<not> isExpired t (ttl p) e \<longrightarrow>
           getClient options t (p, w) =
             (client e,
              p\<lparr>pool := Map_set (generateKey (options\<lparr> o_region := Some ''us-east-1'' \<rparr>))
                       (touch t e) (pool p)\<rparr>,
              w)) \<and>
      ((case Map_get (pool p) (generateKey (options\<lparr> o_region := Some ''us-east-1'' \<rparr>)) of
          None \<Rightarrow> True
        | Some e \<Rightarrow> isExpired t (ttl p) e) \<longrightarrow>
         (case getClient options t (p, w) of
            (c, p', w') \<Rightarrow>
              c_options c = options \<and> c_ref c = next_ref w + 2 \<and>
              Map_get (pool p') (generateKey (options\<lparr> o_region := Some ''us-east-1'' \<rparr>)) =
                Some \<lparr> client = c, httpsAgent = Some (next_ref w),
                       httpAgent = Some (next_ref w + 1),
                       createdAt = t, lastUsedAt = t, useCount = 1 \<rparr>)))"
proof (intro conjI impI allI)
  assume r: "\<not> truthy (cfg_region cfg)"
  note eq = configureS3_no_region [OF r, of env now m]
  show "snd (configureS3 (Some cfg) env now m) = m"
    unfolding eq by (simp split: sum.splits)
  show "isl (fst (configureS3 (Some cfg) env now m))"
    unfolding eq by (simp split: sum.splits)
  assume ok: "\<forall>v. \<not> isl (getMessageProperty env v) \<and> \<not> isl (flow_get env v) \<and>
            \<not> isl (global_get env v)"
  have gv: "\<not> isl (getValue env v t)" for v t
  proof (cases "truthy v")
    case False
    then show ?thesis by (simp add: getValue_def)
  next
    case True
    have "\<not> isl (getValue_switch env t (the v))"
      using ok by (simp add: getValue_switch_def)
    then obtain r where "getValue_switch env t (the v) = Inr r"
      by (cases "getValue_switch env t (the v)") auto
    with True show ?thesis by (simp add: getValue_def)
  qed
  show "fst (configureS3 (Some cfg) env now m) =
           Inl (Error ''Region is missing in AWS S3 configuration'')"
    unfolding eq
    using gv [of "cfg_accessKeyId cfg" "cfg_accessKeyIdType cfg"]
      gv [of "cfg_secretAccessKey cfg" "cfg_secretAccessKeyType cfg"]
      gv [of "cfg_endpoint cfg" "or_else (cfg_endpointType cfg) (Some ''str'')"]
    by (auto split: sum.splits)
next
  assume r: "o_region options = None"
  then show "n_region (normalize options) = ''us-east-1''"
    by (simp add: normalize_def truthy_def)
  from r have "normalize options = normalize (options\<lparr> o_region := Some ''us-east-1'' \<rparr>)"
    by (simp add: normalize_def truthy_def)
  then show key: "generateKey options = generateKey (options\<lparr> o_region := Some ''us-east-1'' \<rparr>)"
    by (simp add: generateKey_def)
  {
    fix e
    assume "Map_get (pool p) (generateKey (options\<lparr> o_region := Some ''us-east-1'' \<rparr>)) = Some e \<and>
           \<not> isExpired t (ttl p) e"
    then have "Map_get (pool p) (generateKey options) = Some e" "\<not> isExpired t (ttl p) e"
      by (simp_all add: key)
    from getClient_hit [OF this, of w]
    show "getClient options t (p, w) =
             (client e,
              p\<lparr>pool := Map_set (generateKey (options\<lparr> o_region := Some ''us-east-1'' \<rparr>))
                       (touch t e) (pool p)\<rparr>,
              w)"
      by (simp add: key)
  }
  assume "case Map_get (pool p) (generateKey (options\<lparr> o_region := Some ''us-east-1'' \<rparr>)) of
          None \<Rightarrow> True
        | Some e \<Rightarrow> isExpired t (ttl p) e"
  then have "case Map_get (pool p) (generateKey options) of
          None \<Rightarrow> True
        | Some e \<Rightarrow> isExpired t (ttl p) e"
    by (simp add: key)
  from getClient_builds [OF this, of w]
  show "case getClient options t (p, w) of
            (c, p', w') \<Rightarrow>
              c_options c = options \<and> c_ref c = next_ref w + 2 \<and>
              Map_get (pool p') (generateKey (options\<lparr> o_region := Some ''us-east-1'' \<rparr>)) =
                Some \<lparr> client = c, httpsAgent = Some (next_ref w),
                       httpAgent = Some (next_ref w + 1),
                       createdAt = t, lastUsedAt = t, useCount = 1 \<rparr>"
    by (simp add: key split: prod.splits)
qed

theorem region_check_witness:
  "configureS3 (Some aws_config_no_region) env0 0 module0 =
     (Inl (Error ''Region is missing in AWS S3 configuration''), module0) \<and>
   n_region (normalize cfg_no_region) = ''us-east-1'' \<and>
   generateKey cfg_no_region = generateKey cfg_us_east_1 \<and>
   (case getClient cfg_no_region 500 after_first_acquire of
      (c, p', w') \<Rightarrow>
        c_ref c = 3 \<and> o_region (c_options c) = Some ''us-east-1'' \<and>
        w' = snd after_first_acquire) \<and>
   (case getClient cfg_no_region 0 (S3ConnectionPool_new None world0) of
      (c, p', w') \<Rightarrow>
        o_region (c_options c) = None \<and> c_ref c = 3 \<and>
        map_option useCount (Map_get (pool p') (generateKey cfg_us_east_1)) = Some 1)"
proof -
  have r: "o_region cfg_no_region = None"
    by (simp add: cfg_no_region_def)
  have us: "cfg_no_region\<lparr> o_region := Some ''us-east-1'' \<rparr> = cfg_us_east_1"
    by (simp add: cfg_us_east_1_def)
  define p1 where p1: "p1 = fst after_first_acquire"
  define w1 where w1: "w1 = snd after_first_acquire"
  define c1 where c1: "c1 = fst (getClient cfg_us_east_1 0 (S3ConnectionPool_new (Some ttl_1000) world0))"
  have pw1: "after_first_acquire = (p1, w1)"
    by (simp add: p1 w1)
  have look1: "Map_get (pool p1) (generateKey cfg_us_east_1) =
        Some \<lparr> client = c1, httpsAgent = Some 1, httpAgent = Some 2, createdAt = 0,
               lastUsedAt = 0, useCount = 1 \<rparr>"
    unfolding p1 c1 by (simp add: example_defs)
  have vals1: "ttl p1 = 1000" "c_ref c1 = 3" "o_region (c_options c1) = Some ''us-east-1''"
    unfolding p1 c1 by (simp_all add: example_defs) (simp add: cfg_us_east_1_def)
  define p2 where p2: "p2 = fst (S3ConnectionPool_new None world0)"
  define w2 where w2: "w2 = snd (S3ConnectionPool_new None world0)"
  have pw2: "S3ConnectionPool_new None world0 = (p2, w2)"
    by (simp add: p2 w2)
  have vals2: "Map_get (pool p2) (generateKey cfg_us_east_1) = None" "next_ref w2 = 1"
    unfolding p2 w2 by (simp_all add: example_defs)
  note t1 = region_checked_by_configureS3_not_by_pool
          [where cfg = aws_config_no_region and options = cfg_no_region and env = env0
             and now = 0 and m = module0 and p = p1 and w = w1 and t = 500]
  note t2 = region_checked_by_configureS3_not_by_pool
          [where cfg = aws_config_no_region and options = cfg_no_region and env = env0
             and now = 0 and m = module0 and p = p2 and w = w2 and t = 0]
  have a: "configureS3 (Some aws_config_no_region) env0 0 module0 =
     (Inl (Error ''Region is missing in AWS S3 configuration''), module0)"
    using t1 by (simp add: aws_config_no_region_def env0_def truthy_def prod_eq_iff)
  have b: "n_region (normalize cfg_no_region) = ''us-east-1''"
    and c: "generateKey cfg_no_region = generateKey cfg_us_east_1"
    using t1 r by (simp_all add: us)
  have d: "case getClient cfg_no_region 500 after_first_acquire of
      (c, p', w') \<Rightarrow>
        c_ref c = 3 \<and> o_region (c_options c) = Some ''us-east-1'' \<and>
        w' = snd after_first_acquire"
    using t1 r look1 vals1 unfolding pw1 us by (simp add: isExpired_def)
  have e: "case getClient cfg_no_region 0 (S3ConnectionPool_new None world0) of
      (c, p', w') \<Rightarrow>
        o_region (c_options c) = None \<and> c_ref c = 3 \<and>
        map_option useCount (Map_get (pool p') (generateKey cfg_us_east_1)) = Some 1"
    using t2 r vals2 unfolding pw2 us by (auto simp: cfg_no_region_def split: prod.splits)
  from a b c d e show ?thesis by blast
qed


section \<open>The sweep\<close>

lemma Map_delete_absent: "map_of m k = None \<Longrightarrow> Map_delete k m = m"
  by (induction m) (auto simp: Map_delete_def split: if_splits)

lemma filter_Map_delete:
  "filter (\<lambda>kv. fst kv \<notin> set ks) (Map_delete k m) = filter (\<lambda>kv. fst kv \<notin> set (k # ks)) m"
  by (induction m) (auto simp: Map_delete_def)

lemma Union_filter_Map_delete:
  "(\<Union>kv\<in>set (filter (\<lambda>kv. fst kv = k) m). f kv) \<union>
   (\<Union>kv\<in>set (filter (\<lambda>kv. fst kv \<in> set ks) (Map_delete k m)). f kv) =
   (\<Union>kv\<in>set (filter (\<lambda>kv. fst kv \<in> set (k # ks)) m). f kv)"
  by (auto simp: Map_delete_def)

lemma Union_filter_key:
  "distinct (map fst m) \<Longrightarrow>
   (case Map_get m k of None \<Rightarrow> {} | Some e \<Rightarrow> g e) =
   (\<Union>kv\<in>set (filter (\<lambda>kv. fst kv = k) m). g (snd kv))"
  unfolding Map_get_def
proof (induction m)
  case Nil
  show ?case by simp
next
  case (Cons a m)
  show ?case
  proof (cases "fst a = k")
    case True
    with Cons.prems have "k \<notin> fst ` set m" by auto
    then have "filter (\<lambda>kv. fst kv = k) m = []"
      by (auto simp: filter_empty_conv)
    with True show ?thesis by (cases a) simp
  next
    case False
    with Cons show ?thesis by (cases a) simp
  qed
qed

lemma cleanup_key_eq:
  "cleanup_key k (p, w) =
     (p\<lparr>pool := Map_delete k (pool p)\<rparr>,
      w\<lparr>destroyed := destroyed w \<union>
           (case Map_get (pool p) k of
              None \<Rightarrow> {}
            | Some e \<Rightarrow> destroy_closes (destroy_throws w) e)\<rparr>)"
  by (cases "Map_get (pool p) k")
     (simp_all add: cleanup_key_def snd_destroy Map_get_def Map_delete_absent)

lemma fold_cleanup_key:
  assumes "distinct (map fst (pool p))"
  shows "fold cleanup_key ks (p, w) =
           (p\<lparr>pool := filter (\<lambda>kv. fst kv \<notin> set ks) (pool p)\<rparr>,
            w\<lparr>destroyed := destroyed w \<union>
                 (\<Union>kv\<in>set (filter (\<lambda>kv. fst kv \<in> set ks) (pool p)).
                    destroy_closes (destroy_throws w) (snd kv))\<rparr>)"
  using assms
proof (induction ks arbitrary: p w)
  case Nil
  then show ?case by simp
next
  case (Cons k ks)
  let ?f = "\<lambda>kv. destroy_closes (destroy_throws w) (snd kv)"
  let ?D = "\<Union>kv\<in>set (filter (\<lambda>kv. fst kv = k) (pool p)). ?f kv"
  let ?p1 = "p\<lparr>pool := Map_delete k (pool p)\<rparr>"
  let ?w1 = "w\<lparr>destroyed := destroyed w \<union> ?D\<rparr>"
  have d1: "distinct (map fst (pool ?p1))"
    using Cons.prems by (simp add: distinct_Map_delete)
  have step1: "fold cleanup_key (k # ks) (p, w) = fold cleanup_key ks (?p1, ?w1)"
    by (simp only: fold_simps comp_apply cleanup_key_eq Union_filter_key [OF Cons.prems])
  have step2: "fold cleanup_key ks (?p1, ?w1) =
           (?p1\<lparr>pool := filter (\<lambda>kv. fst kv \<notin> set ks) (pool ?p1)\<rparr>,
            ?w1\<lparr>destroyed := destroyed ?w1 \<union>
                 (\<Union>kv\<in>set (filter (\<lambda>kv. fst kv \<in> set ks) (pool ?p1)).
                    destroy_closes (destroy_throws ?w1) (snd kv))\<rparr>)"
    by (rule Cons.IH [OF d1])
  have pe: "?p1\<lparr>pool := filter (\<lambda>kv. fst kv \<notin> set ks) (pool ?p1)\<rparr> =
             p\<lparr>pool := filter (\<lambda>kv. fst kv \<notin> set (k # ks)) (pool p)\<rparr>"
    by (simp only: filter_Map_delete [symmetric]) simp
  have we: "?w1\<lparr>destroyed := destroyed ?w1 \<union>
                 (\<Union>kv\<in>set (filter (\<lambda>kv. fst kv \<in> set ks) (pool ?p1)).
                    destroy_closes (destroy_throws ?w1) (snd kv))\<rparr> =
             w\<lparr>destroyed := destroyed w \<union>
                 (\<Union>kv\<in>set (filter (\<lambda>kv. fst kv \<in> set (k # ks)) (pool p)). ?f kv)\<rparr>"
    by (simp only: Union_filter_Map_delete [where k = k and m = "pool p" and f = ?f and ks = ks,
          symmetric]) (simp add: Un_assoc)
  show ?case
    by (simp only: step1 step2 pe we)
qed

lemma expired_key_iff:
  assumes "distinct (map fst m)" "kv \<in> set m"
  shows "fst kv \<in> set (map fst (filter P m)) \<longleftrightarrow> P kv"
proof
  assume "fst kv \<in> set (map fst (filter P m))"
  then obtain kv' where kv': "kv' \<in> set m" "P kv'" "fst kv' = fst kv"
    by auto
  with assms have "kv' = kv"
    by (metis eq_key_imp_eq_value prod.collapse)
  with kv' show "P kv" by simp
next
  assume "P kv"
  with assms(2) show "fst kv \<in> set (map fst (filter P m))"
    by auto
qed

lemma cleanup_eq:
  assumes "distinct (map fst (pool p))"
  shows "cleanup now (p, w) =
           (p\<lparr>pool := filter (\<lambda>kv. \<not> isExpired now (ttl p) (snd kv)) (pool p)\<rparr>,
            w\<lparr>destroyed := destroyed w \<union>
                 (\<Union>kv\<in>set (filter (\<lambda>kv. isExpired now (ttl p) (snd kv)) (pool p)).
                    destroy_closes (destroy_throws w) (snd kv))\<rparr>)"
proof -
  let ?P = "\<lambda>kv. isExpired now (ttl p) (snd kv)"
  have 1: "filter (\<lambda>kv. fst kv \<notin> set (expiredKeys now p)) (pool p) = filter (\<lambda>kv. \<not> ?P kv) (pool p)"
    unfolding expiredKeys_def
    by (rule filter_cong [OF refl]) (simp only: expired_key_iff [OF assms])
  have 2: "filter (\<lambda>kv. fst kv \<in> set (expiredKeys now p)) (pool p) = filter ?P (pool p)"
    unfolding expiredKeys_def
    by (rule filter_cong [OF refl]) (simp only: expired_key_iff [OF assms])
  show ?thesis
    unfolding cleanup_def by (simp only: fst_conv fold_cleanup_key [OF assms] 1 2)
qed


lemma key_us_neq_eu: "generateKey cfg_us_east_1 \<noteq> generateKey cfg_eu_west_1"
proof
  assume "generateKey cfg_us_east_1 = generateKey cfg_eu_west_1"
  then have "normalize cfg_us_east_1 = normalize cfg_eu_west_1"
    unfolding generateKey_def by (rule JSON_stringify_inj)
  then show False
    by (simp add: normalize_def truthy_def cfg_us_east_1_def cfg_eu_west_1_def cfg_no_region_def)
qed

lemma destroy_closes_all:
  "(\<forall>a. \<not> throws a) \<Longrightarrow> destroy_closes throws e = entry_agents e"
  by (simp add: destroy_closes_no_throw)

text \<open>
  C5. On a store with one entry per key (which a \<^verbatim>\<open>Map\<close> always is), \<open>cleanup\<close> at time
  \<open>now\<close> keeps exactly the entries whose age \<open>now - createdAt\<close> does not exceed the TTL,
  in their order and unchanged (client, agents, times and use counter), and removes the
  others. The world changes only in the set of destroyed agents: to it are added the
  agents that \<open>destroy\<close> closes for each removed entry, which are all agents of the
  removed entries when no \<^verbatim>\<open>destroy()\<close> of an agent raises. Nothing else of the pool
  changes.
\<close>

theorem cleanup_removes_exactly_the_expired:
  assumes "distinct (map fst (pool p))"
  shows "cleanup now (p, w) =
           (p\<lparr>pool := filter (\<lambda>kv. \<not> ttl p < now - createdAt (snd kv)) (pool p)\<rparr>,
            w\<lparr>destroyed := destroyed w \<union>
                 (\<Union>kv\<in>set (filter (\<lambda>kv. ttl p < now - createdAt (snd kv)) (pool p)).
                    destroy_closes (destroy_throws w) (snd kv))\<rparr>) \<and>
         ((\<forall>a. \<not> destroy_throws w a) \<longrightarrow>
            destroyed (snd (cleanup now (p, w))) =
              destroyed w \<union>
              (\<Union>kv\<in>set (filter (\<lambda>kv. ttl p < now - createdAt (snd kv)) (pool p)).
                 entry_agents (snd kv)))"
proof -
  have eq: "cleanup now (p, w) =
           (p\<lparr>pool := filter (\<lambda>kv. \<not> ttl p < now - createdAt (snd kv)) (pool p)\<rparr>,
            w\<lparr>destroyed := destroyed w \<union>
                 (\<Union>kv\<in>set (filter (\<lambda>kv. ttl p < now - createdAt (snd kv)) (pool p)).
                    destroy_closes (destroy_throws w) (snd kv))\<rparr>)"
    using cleanup_eq [OF assms, of now w] by (simp only: isExpired_def)
  show ?thesis
    by (simp add: eq destroy_closes_all)
qed

theorem cleanup_witness:
  "(case cleanup 1500 two_entries of
      (p', w') \<Rightarrow>
        map fst (pool p') = [generateKey cfg_eu_west_1] \<and>
        map (\<lambda>kv. (createdAt (snd kv), lastUsedAt (snd kv), useCount (snd kv),
                    c_ref (client (snd kv)))) (pool p') = [(800, 800, 1, 6)] \<and>
        destroyed w' = {1, 2})"
proof -
  define p where p: "p = fst two_entries"
  define w where w: "w = snd two_entries"
  have pw: "two_entries = (p, w)"
    by (simp add: p w)
  note k = key_us_neq_eu key_us_neq_eu [symmetric]
  have vals: "map fst (pool p) = [generateKey cfg_us_east_1, generateKey cfg_eu_west_1]"
    "map (\<lambda>kv. (createdAt (snd kv), lastUsedAt (snd kv), useCount (snd kv),
                 c_ref (client (snd kv)), httpsAgent (snd kv), httpAgent (snd kv))) (pool p) =
       [(0, 0, 1, 3, Some 1, Some 2), (800, 800, 1, 6, Some 4, Some 5)]"
    "ttl p = 1000" "destroyed w = {}" "destroy_throws w = (\<lambda>a. False)"
    unfolding p w two_entries_def by (simp_all add: k example_defs)
  have d: "distinct (map fst (pool p))"
    using k by (simp add: vals)
  from vals(1,2) obtain e1 e2 where
    pool: "pool p = [(generateKey cfg_us_east_1, e1), (generateKey cfg_eu_west_1, e2)]"
    by (cases "pool p") (auto simp: map_eq_Cons_conv)
  show ?thesis
    unfolding pw
    using cleanup_removes_exactly_the_expired [OF d, of 1500 w] vals
    by (simp add: pool destroy_closes_def)
qed

section \<open>Shutdown\<close>

lemma destroy_all_eq:
  "destroy_all es w =
     w\<lparr>destroyed := destroyed w \<union> (\<Union>e\<in>set es. destroy_closes (destroy_throws w) e)\<rparr>"
proof (induction es arbitrary: w)
  case Nil
  show ?case by (simp add: destroy_all_def)
next
  case (Cons e es)
  have "destroy_all (e # es) w = destroy_all es (snd (destroy e w))"
    by (simp add: destroy_all_def)
  also have "\<dots> = w\<lparr>destroyed := destroyed w \<union>
        (\<Union>e\<in>set (e # es). destroy_closes (destroy_throws w) e)\<rparr>"
    by (simp add: Cons.IH snd_destroy Un_assoc)
  finally show ?case .
qed

lemma shutdown_eq:
  "shutdown (p, w) =
     (p\<lparr>pool := [], cleanupTimer := None\<rparr>,
      w\<lparr>timers := timers w - set_option (cleanupTimer p),
        destroyed := destroyed w \<union>
          (\<Union>e\<in>set (map snd (pool p)). destroy_closes (destroy_throws w) e)\<rparr>)"
  by (cases "cleanupTimer p") (simp_all add: shutdown_def destroy_all_eq)










section \<open>One entry per key, and no entry seen again after its removal\<close>

lemma set_Map_delete: "set (Map_delete k m) = {kv \<in> set m. fst kv \<noteq> k}"
  by (auto simp: Map_delete_def)

lemma set_Map_set:
  "distinct (map fst m) \<Longrightarrow> set (Map_set k v m) = insert (k, v) {kv \<in> set m. fst kv \<noteq> k}"
proof (induction m)
  case Nil
  show ?case by simp
next
  case (Cons a m)
  show ?case
  proof (cases "fst a = k")
    case True
    with Cons.prems have "k \<notin> fst ` set m" by auto
    then have "{kv \<in> set m. fst kv \<noteq> k} = set m" by auto
    with True show ?thesis by auto
  next
    case False
    with Cons show ?thesis by auto
  qed
qed

lemma entry_refs_touch: "entry_refs (touch now e) = entry_refs e"
  by (simp add: entry_refs_def touch_def)

lemma client_touch: "client (touch now e) = client e"
  by (simp add: touch_def)

lemma same_key_same_entry:
  "distinct (map fst m) \<Longrightarrow> kv \<in> set m \<Longrightarrow> kv' \<in> set m \<Longrightarrow> fst kv = fst kv' \<Longrightarrow> kv = kv'"
  by (metis eq_key_imp_eq_value prod.collapse)

lemma getClient_shape:
  assumes d: "distinct (map fst (pool p))"
  shows "step_shape (p, w) (snd (getClient options now (p, w)))"
proof -
  let ?k = "generateKey options"
  consider (hit) e where "Map_get (pool p) ?k = Some e" "\<not> isExpired now (ttl p) e"
    | (expired) e where "Map_get (pool p) ?k = Some e" "isExpired now (ttl p) e"
    | (miss) "Map_get (pool p) ?k = None"
    by (cases "Map_get (pool p) ?k") auto
  then show ?thesis
  proof cases
    case hit
    then have mem: "(?k, e) \<in> set (pool p)"
      by (simp add: Map_get_def map_of_SomeD)
    have "\<forall>kv'\<in>set (Map_set ?k (touch now e) (pool p)).
         kv' \<in> set (pool p) \<or>
         (fst kv' = ?k \<and>
          ((\<exists>kv\<in>set (pool p).
              fst kv = ?k \<and> client (snd kv') = client (snd kv) \<and>
              entry_refs (snd kv') = entry_refs (snd kv)) \<or>
           entry_refs (snd kv') \<subseteq> {next_ref w..<next_ref w}))"
      using mem by (auto simp: set_Map_set [OF d] entry_refs_touch client_touch
          intro!: bexI [of _ "(?k, e)"])
    then show ?thesis
      unfolding step_shape_def
      by (simp add: getClient_hit [OF hit] distinct_Map_set [OF d]) blast
  next
    case miss
    let ?e = "\<lparr> client = fst (fst (createClient options p w)),
                       httpsAgent = Some (next_ref w), httpAgent = Some (next_ref w + 1),
                       createdAt = now, lastUsedAt = now, useCount = 1 \<rparr>"
    have r: "entry_refs ?e \<subseteq> {next_ref w..<next_ref w + 3}"
      by (auto simp: entry_refs_def createClient_eq)
    have "\<forall>kv'\<in>set (Map_set ?k ?e (pool p)).
         kv' \<in> set (pool p) \<or>
         (fst kv' = ?k \<and>
          ((\<exists>kv\<in>set (pool p).
              fst kv = ?k \<and> client (snd kv') = client (snd kv) \<and>
              entry_refs (snd kv') = entry_refs (snd kv)) \<or>
           entry_refs (snd kv') \<subseteq> {next_ref w..<next_ref w + 3}))"
      using r by (auto simp: set_Map_set [OF d])
    then show ?thesis
      unfolding step_shape_def
      by (simp add: getClient_miss [OF miss] distinct_Map_set [OF d] createClient_eq) blast
  next
    case expired
    then have mem: "(?k, e) \<in> set (pool p)"
      by (simp add: Map_get_def map_of_SomeD)
    let ?e = "\<lparr> client = fst (fst (createClient options p (snd (destroy e w)))),
                       httpsAgent = Some (next_ref w), httpAgent = Some (next_ref w + 1),
                       createdAt = now, lastUsedAt = now, useCount = 1 \<rparr>"
    have d': "distinct (map fst (Map_delete ?k (pool p)))"
      using d by (rule distinct_Map_delete)
    have r: "entry_refs ?e \<subseteq> {next_ref w..<next_ref w + 3}"
      by (auto simp: entry_refs_def createClient_eq snd_destroy)
    have sub: "destroy_closes (destroy_throws w) e \<subseteq> entry_refs e"
      using destroy_closes_subset [of "destroy_throws w" e]
      by (auto simp: entry_refs_def entry_agents_def)
    have new: "\<forall>kv'\<in>set (Map_set ?k ?e (Map_delete ?k (pool p))).
         kv' \<in> set (pool p) \<or>
         (fst kv' = ?k \<and>
          ((\<exists>kv\<in>set (pool p).
              fst kv = ?k \<and> client (snd kv') = client (snd kv) \<and>
              entry_refs (snd kv') = entry_refs (snd kv)) \<or>
           entry_refs (snd kv') \<subseteq> {next_ref w..<next_ref w + 3}))"
      using r by (auto simp: set_Map_set [OF d'] set_Map_delete)
    have dest: "\<forall>a\<in>destroy_closes (destroy_throws w) e - destroyed w.
         \<exists>kv\<in>set (pool p).
           a \<in> entry_refs (snd kv) \<and>
           (\<forall>kv'\<in>set (Map_set ?k ?e (Map_delete ?k (pool p))).
              fst kv' = fst kv \<longrightarrow>
              entry_refs (snd kv') \<subseteq> {next_ref w..<next_ref w + 3})"
    proof
      fix a assume "a \<in> destroy_closes (destroy_throws w) e - destroyed w"
      with sub have a: "a \<in> entry_refs e" by auto
      have "\<forall>kv'\<in>set (Map_set ?k ?e (Map_delete ?k (pool p))).
              fst kv' = ?k \<longrightarrow> entry_refs (snd kv') \<subseteq> {next_ref w..<next_ref w + 3}"
        using r by (auto simp: set_Map_set [OF d'] set_Map_delete)
      with a mem show "\<exists>kv\<in>set (pool p).
           a \<in> entry_refs (snd kv) \<and>
           (\<forall>kv'\<in>set (Map_set ?k ?e (Map_delete ?k (pool p))).
              fst kv' = fst kv \<longrightarrow>
              entry_refs (snd kv') \<subseteq> {next_ref w..<next_ref w + 3})"
        by (intro bexI [of _ "(?k, e)"]) auto
    qed
    show ?thesis
      unfolding step_shape_def
      using new dest
      by (simp add: getClient_expired [OF expired] distinct_Map_set [OF d'] createClient_eq
          snd_destroy Un_Diff) blast
  qed
qed


lemma shrink_shape:
  assumes d: "distinct (map fst (pool p))"
    and p': "pool p' = filter P (pool p)"
    and w': "next_ref w' = next_ref w"
      "destroyed w' = destroyed w \<union>
         (\<Union>kv\<in>set (filter (\<lambda>kv. \<not> P kv) (pool p)). destroy_closes (destroy_throws w) (snd kv))"
  shows "step_shape (p, w) (p', w')"
proof -
  have sub: "destroy_closes (destroy_throws w) e \<subseteq> entry_refs e" for e
    using destroy_closes_subset [of "destroy_throws w" e]
    by (auto simp: entry_refs_def entry_agents_def)
  have dest: "\<exists>kv\<in>set (pool p).
           a \<in> entry_refs (snd kv) \<and>
           (\<forall>kv'\<in>set (pool p').
              fst kv' = fst kv \<longrightarrow> entry_refs (snd kv') \<subseteq> {next_ref w..<next_ref w'})"
    if "a \<in> destroyed w' - destroyed w" for a
  proof -
    from that w'(2) obtain kv where kv: "kv \<in> set (pool p)" "\<not> P kv"
      "a \<in> destroy_closes (destroy_throws w) (snd kv)"
      by auto
    have "\<forall>kv'\<in>set (pool p'). fst kv' \<noteq> fst kv"
    proof (intro ballI notI)
      fix kv' assume a: "kv' \<in> set (pool p')" "fst kv' = fst kv"
      then have m: "kv' \<in> set (pool p)" and P: "P kv'"
        by (simp_all add: p')
      from d m kv(1) a(2) have "kv' = kv"
        by (rule same_key_same_entry)
      with P kv(2) show False by simp
    qed
    with kv sub show ?thesis by blast
  qed
  have "distinct (map fst (pool p'))"
    using d by (simp add: p' distinct_map_filter)
  moreover have "\<forall>kv'\<in>set (pool p'). kv' \<in> set (pool p)"
    by (simp add: p')
  ultimately show ?thesis
    unfolding step_shape_def using dest w' by (simp del: set_filter) blast
qed

lemma step_shape:
  assumes d: "distinct (map fst (pool p))"
  shows "step_shape (p, w) (step op (p, w))"
proof (cases op)
  case (GetClient options now)
  then show ?thesis using getClient_shape [OF d] by simp
next
  case (Cleanup now)
  show ?thesis
    unfolding Cleanup step.simps cleanup_eq [OF d]
    by (rule shrink_shape [OF d, where P = "\<lambda>kv. \<not> isExpired now (ttl p) (snd kv)"]) simp_all
next
  case Clear
  show ?thesis
    unfolding Clear step.simps clear_def prod.case destroy_all_eq
    by (rule shrink_shape [OF d, where P = "\<lambda>kv. False"]) simp_all
next
  case Shutdown
  show ?thesis
    unfolding Shutdown step.simps shutdown_eq
    by (rule shrink_shape [OF d, where P = "\<lambda>kv. False"]) simp_all
qed

lemma old_fresh_disjoint:
  fixes A B :: "nat set"
  shows "A \<subseteq> {..<n} \<Longrightarrow> B \<subseteq> {n..<n'} \<Longrightarrow> A \<inter> B = {} \<and> B \<inter> A = {}"
  by (auto simp: subset_iff) (metis not_less)+

lemma pool_invD:
  assumes "pool_inv pw"
  shows "distinct (map fst (pool (fst pw)))"
    and "destroyed (snd pw) \<subseteq> {..<next_ref (snd pw)}"
    and "\<And>kv. kv \<in> set (pool (fst pw)) \<Longrightarrow> entry_refs (snd kv) \<subseteq> {..<next_ref (snd pw)}"
    and "\<And>kv. kv \<in> set (pool (fst pw)) \<Longrightarrow> entry_refs (snd kv) \<inter> destroyed (snd pw) = {}"
    and "\<And>kv kv'. kv \<in> set (pool (fst pw)) \<Longrightarrow> kv' \<in> set (pool (fst pw)) \<Longrightarrow>
           fst kv \<noteq> fst kv' \<Longrightarrow> entry_refs (snd kv) \<inter> entry_refs (snd kv') = {}"
  using assms unfolding pool_inv_def by simp_all

lemma step_shapeE:
  assumes "step_shape pw pw'"
  obtains key where "distinct (map fst (pool (fst pw')))"
    and "next_ref (snd pw) \<le> next_ref (snd pw')"
    and "destroyed (snd pw) \<subseteq> destroyed (snd pw')"
    and "\<And>kv'. kv' \<in> set (pool (fst pw')) \<Longrightarrow>
         kv' \<in> set (pool (fst pw)) \<or>
         (fst kv' = key \<and>
          ((\<exists>kv\<in>set (pool (fst pw)). fst kv = key \<and> client (snd kv') = client (snd kv) \<and>
              entry_refs (snd kv') = entry_refs (snd kv)) \<or>
           entry_refs (snd kv') \<subseteq> {next_ref (snd pw)..<next_ref (snd pw')}))"
    and "\<And>a. a \<in> destroyed (snd pw') \<Longrightarrow> a \<notin> destroyed (snd pw) \<Longrightarrow>
         \<exists>kv\<in>set (pool (fst pw)). a \<in> entry_refs (snd kv) \<and>
           (\<forall>kv'\<in>set (pool (fst pw')). fst kv' = fst kv \<longrightarrow>
              entry_refs (snd kv') \<subseteq> {next_ref (snd pw)..<next_ref (snd pw')})"
proof -
  from assms obtain key where
    "distinct (map fst (pool (fst pw')))"
    "next_ref (snd pw) \<le> next_ref (snd pw')"
    "destroyed (snd pw) \<subseteq> destroyed (snd pw')"
    "\<forall>kv'\<in>set (pool (fst pw')).
         kv' \<in> set (pool (fst pw)) \<or>
         (fst kv' = key \<and>
          ((\<exists>kv\<in>set (pool (fst pw)). fst kv = key \<and> client (snd kv') = client (snd kv) \<and>
              entry_refs (snd kv') = entry_refs (snd kv)) \<or>
           entry_refs (snd kv') \<subseteq> {next_ref (snd pw)..<next_ref (snd pw')}))"
    "\<forall>a\<in>destroyed (snd pw') - destroyed (snd pw).
         \<exists>kv\<in>set (pool (fst pw)). a \<in> entry_refs (snd kv) \<and>
           (\<forall>kv'\<in>set (pool (fst pw')). fst kv' = fst kv \<longrightarrow>
              entry_refs (snd kv') \<subseteq> {next_ref (snd pw)..<next_ref (snd pw')})"
    unfolding step_shape_def by (elim conjE exE)
  then show ?thesis
    by (intro that [of key]) simp_all
qed


lemma pool_inv_step:
  assumes inv: "pool_inv pw" and sh: "step_shape pw pw'"
  shows "pool_inv pw'"
proof -
  let ?n = "next_ref (snd pw)" and ?n' = "next_ref (snd pw')"
  let ?old = "set (pool (fst pw))" and ?new = "set (pool (fst pw'))"
  note d = pool_invD(1) [OF inv] and dn = pool_invD(2) [OF inv] and rn = pool_invD(3) [OF inv]
    and rd = pool_invD(4) [OF inv] and pd = pool_invD(5) [OF inv]
  from sh show ?thesis
  proof (rule step_shapeE)
  fix key
  assume d': "distinct (map fst (pool (fst pw')))"
    and nn: "?n \<le> ?n'"
    and dd: "destroyed (snd pw) \<subseteq> destroyed (snd pw')"
    and prov: "\<And>kv'. kv' \<in> ?new \<Longrightarrow>
         kv' \<in> ?old \<or>
         (fst kv' = key \<and>
          ((\<exists>kv\<in>?old. fst kv = key \<and> client (snd kv') = client (snd kv) \<and>
              entry_refs (snd kv') = entry_refs (snd kv)) \<or>
           entry_refs (snd kv') \<subseteq> {?n..<?n'}))"
    and dest: "\<And>a. a \<in> destroyed (snd pw') \<Longrightarrow> a \<notin> destroyed (snd pw) \<Longrightarrow>
         \<exists>kv\<in>?old. a \<in> entry_refs (snd kv) \<and>
           (\<forall>kv'\<in>?new. fst kv' = fst kv \<longrightarrow> entry_refs (snd kv') \<subseteq> {?n..<?n'})"
  have up: "A \<subseteq> {..<?n'}" if "A \<subseteq> {..<?n}" for A
    using that nn by (auto simp: subset_iff)
  have up': "A \<subseteq> {..<?n'}" if "A \<subseteq> {?n..<?n'}" for A
    using that by (auto simp: subset_iff)
  have origin: "(\<exists>kv\<in>?old. fst kv = fst kv' \<and> entry_refs (snd kv') = entry_refs (snd kv)) \<or>
                (fst kv' = key \<and> entry_refs (snd kv') \<subseteq> {?n..<?n'})" if "kv' \<in> ?new" for kv'
    using prov [OF that] by blast
  have 1: "destroyed (snd pw') \<subseteq> {..<?n'}"
  proof
    fix a assume a: "a \<in> destroyed (snd pw')"
    show "a \<in> {..<?n'}"
    proof (cases "a \<in> destroyed (snd pw)")
      case True
      with up [OF dn] show ?thesis by blast
    next
      case False
      from dest [OF a False] obtain kv where "kv \<in> ?old" "a \<in> entry_refs (snd kv)" by blast
      with up [OF rn [of kv]] show ?thesis by blast
    qed
  qed
  have 2: "entry_refs (snd kv') \<subseteq> {..<?n'}" if "kv' \<in> ?new" for kv'
    using origin [OF that]
  proof (elim disjE bexE conjE)
    fix kv assume "kv \<in> ?old" "entry_refs (snd kv') = entry_refs (snd kv)"
    with up [OF rn [of kv]] show ?thesis by simp
  next
    assume "entry_refs (snd kv') \<subseteq> {?n..<?n'}"
    then show ?thesis by (rule up')
  qed
  have 3: "entry_refs (snd kv') \<inter> destroyed (snd pw') = {}" if new: "kv' \<in> ?new" for kv'
  proof (rule ccontr)
    assume "entry_refs (snd kv') \<inter> destroyed (snd pw') \<noteq> {}"
    then obtain a where a: "a \<in> entry_refs (snd kv')" "a \<in> destroyed (snd pw')" by blast
    show False
    proof (cases "a \<in> destroyed (snd pw)")
      case True
      from origin [OF new] show False
      proof (elim disjE bexE conjE)
        fix kv assume "kv \<in> ?old" "entry_refs (snd kv') = entry_refs (snd kv)"
        with rd [of kv] a(1) True show False by blast
      next
        assume "entry_refs (snd kv') \<subseteq> {?n..<?n'}"
        from old_fresh_disjoint [OF dn this] a(1) True show False by blast
      qed
    next
      case False
      from dest [OF a(2) False] obtain kv0 where kv0: "kv0 \<in> ?old" "a \<in> entry_refs (snd kv0)"
        and fresh: "\<forall>kv''\<in>?new. fst kv'' = fst kv0 \<longrightarrow> entry_refs (snd kv'') \<subseteq> {?n..<?n'}"
        by blast
      from origin [OF new] show False
      proof (elim disjE bexE conjE)
        fix kv assume kv: "kv \<in> ?old" "fst kv = fst kv'"
          "entry_refs (snd kv') = entry_refs (snd kv)"
        have "fst kv = fst kv0"
        proof (rule ccontr)
          assume "fst kv \<noteq> fst kv0"
          from pd [OF kv(1) kv0(1) this] a(1) kv(3) kv0(2) show False by blast
        qed
        with kv(2) fresh new have f: "entry_refs (snd kv') \<subseteq> {?n..<?n'}"
          by simp
        from old_fresh_disjoint [OF rn [OF kv(1)] f] a(1) kv(3) show False by blast
      next
        assume f: "entry_refs (snd kv') \<subseteq> {?n..<?n'}"
        from old_fresh_disjoint [OF rn [OF kv0(1)] f] a(1) kv0(2) show False by blast
      qed
    qed
  qed
  have 4: "entry_refs (snd kv1) \<inter> entry_refs (snd kv2) = {}"
    if k1: "kv1 \<in> ?new" and k2: "kv2 \<in> ?new" and ne: "fst kv1 \<noteq> fst kv2" for kv1 kv2
    using origin [OF k1] origin [OF k2]
  proof (elim disjE bexE conjE)
    fix a b assume "a \<in> ?old" "fst a = fst kv1" "entry_refs (snd kv1) = entry_refs (snd a)"
      "b \<in> ?old" "fst b = fst kv2" "entry_refs (snd kv2) = entry_refs (snd b)"
    with pd [of a b] ne show ?thesis by simp
  next
    fix a assume a: "a \<in> ?old" "entry_refs (snd kv1) = entry_refs (snd a)"
      and f: "entry_refs (snd kv2) \<subseteq> {?n..<?n'}"
    from old_fresh_disjoint [OF rn [OF a(1)] f] a(2) show ?thesis by simp
  next
    fix b assume b: "b \<in> ?old" "entry_refs (snd kv2) = entry_refs (snd b)"
      and f: "entry_refs (snd kv1) \<subseteq> {?n..<?n'}"
    from old_fresh_disjoint [OF rn [OF b(1)] f] b(2) show ?thesis by simp
  next
    assume "fst kv1 = key" "fst kv2 = key"
    with ne show ?thesis by simp
  qed
  show ?thesis
    unfolding pool_inv_def
  proof (intro conjI ballI impI)
    show "distinct (map fst (pool (fst pw')))" by (rule d')
    show "destroyed (snd pw') \<subseteq> {..<?n'}" by (rule 1)
  next
    fix kv assume "kv \<in> ?new"
    then show "entry_refs (snd kv) \<subseteq> {..<?n'}" by (rule 2)
  next
    fix kv assume "kv \<in> ?new"
    then show "entry_refs (snd kv) \<inter> destroyed (snd pw') = {}" by (rule 3)
  next
    fix kv kv' assume "kv \<in> ?new" "kv' \<in> ?new" "fst kv \<noteq> fst kv'"
    then show "entry_refs (snd kv) \<inter> entry_refs (snd kv') = {}" by (rule 4)
  qed
  qed
qed


lemma step_shape_origin:
  assumes "step_shape pw pw'" and "kv' \<in> set (pool (fst pw'))"
  shows "(\<exists>kv\<in>set (pool (fst pw)).
            client (snd kv') = client (snd kv) \<and> entry_refs (snd kv') = entry_refs (snd kv)) \<or>
         entry_refs (snd kv') \<subseteq> {next_ref (snd pw)..<next_ref (snd pw')}"
  using assms(1)
proof (rule step_shapeE)
  fix key
  assume "\<And>kv'. kv' \<in> set (pool (fst pw')) \<Longrightarrow>
         kv' \<in> set (pool (fst pw)) \<or>
         (fst kv' = key \<and>
          ((\<exists>kv\<in>set (pool (fst pw)). fst kv = key \<and> client (snd kv') = client (snd kv) \<and>
              entry_refs (snd kv') = entry_refs (snd kv)) \<or>
           entry_refs (snd kv') \<subseteq> {next_ref (snd pw)..<next_ref (snd pw')}))"
  from this [OF assms(2)] show ?thesis by blast
qed

lemma step_shape_next_ref:
  "step_shape pw pw' \<Longrightarrow> next_ref (snd pw) \<le> next_ref (snd pw')"
  by (simp add: step_shape_def)

lemma no_shared_refs_step:
  assumes q: "no_shared_refs X pw" and sh: "step_shape pw pw'"
  shows "no_shared_refs X pw'"
proof -
  let ?n = "next_ref (snd pw)" and ?n' = "next_ref (snd pw')"
  from q have X: "X \<subseteq> {..<?n}"
    and dis: "\<And>kv. kv \<in> set (pool (fst pw)) \<Longrightarrow> entry_refs (snd kv) \<inter> X = {}"
    unfolding no_shared_refs_def by simp_all
  note nn = step_shape_next_ref [OF sh]
  have "entry_refs (snd kv') \<inter> X = {}" if "kv' \<in> set (pool (fst pw'))" for kv'
    using step_shape_origin [OF sh that]
  proof (elim disjE bexE conjE)
    fix kv assume "kv \<in> set (pool (fst pw))" "entry_refs (snd kv') = entry_refs (snd kv)"
    with dis [of kv] show ?thesis by simp
  next
    assume "entry_refs (snd kv') \<subseteq> {?n..<?n'}"
    from old_fresh_disjoint [OF X this] show ?thesis by simp
  qed
  moreover have "X \<subseteq> {..<?n'}"
    using X nn by (auto simp: subset_iff)
  ultimately show ?thesis
    unfolding no_shared_refs_def by simp
qed

lemma removed_entry_shares_no_refs:
  assumes inv: "pool_inv pw" and sh: "step_shape pw pw'"
    and mem: "kv \<in> set (pool (fst pw))"
    and gone: "\<forall>kv'\<in>set (pool (fst pw')). client (snd kv') \<noteq> client (snd kv)"
  shows "no_shared_refs (entry_refs (snd kv)) pw'"
proof -
  let ?n = "next_ref (snd pw)" and ?n' = "next_ref (snd pw')"
  let ?old = "set (pool (fst pw))" and ?new = "set (pool (fst pw'))"
  note d = pool_invD(1) [OF inv] and rn = pool_invD(3) [OF inv] and pd = pool_invD(5) [OF inv]
  note nn = step_shape_next_ref [OF sh]
  have "entry_refs (snd kv') \<inter> entry_refs (snd kv) = {}" if new: "kv' \<in> ?new" for kv'
    using step_shape_origin [OF sh new]
  proof (elim disjE bexE conjE)
    fix kv0 assume kv0: "kv0 \<in> ?old" "client (snd kv') = client (snd kv0)"
      "entry_refs (snd kv') = entry_refs (snd kv0)"
    from gone new kv0(2) have "kv0 \<noteq> kv" by auto
    with same_key_same_entry [OF d kv0(1) mem] have "fst kv0 \<noteq> fst kv" by blast
    from pd [OF kv0(1) mem this] kv0(3) show ?thesis by simp
  next
    assume "entry_refs (snd kv') \<subseteq> {?n..<?n'}"
    from old_fresh_disjoint [OF rn [OF mem] this] show ?thesis by simp
  qed
  moreover have "entry_refs (snd kv) \<subseteq> {..<?n'}"
    using rn [OF mem] nn by (auto simp: subset_iff)
  ultimately show ?thesis
    unfolding no_shared_refs_def by simp
qed

lemma step_shape_of_inv: "pool_inv pw \<Longrightarrow> step_shape pw (step op pw)"
  using step_shape [of "fst pw" "snd pw" op] by (simp add: pool_invD(1))

lemma pool_inv_step_op: "pool_inv pw \<Longrightarrow> pool_inv (step op pw)"
  using pool_inv_step [of pw "step op pw"] by (simp add: step_shape_of_inv)

lemma pool_inv_run: "pool_inv pw \<Longrightarrow> pool_inv (run ops pw)"
  unfolding run_def by (induction ops arbitrary: pw) (simp_all add: pool_inv_step_op)

lemma no_shared_refs_run:
  "pool_inv pw \<Longrightarrow> no_shared_refs X pw \<Longrightarrow> no_shared_refs X (run ops pw)"
  unfolding run_def
proof (induction ops arbitrary: pw)
  case Nil
  then show ?case by simp
next
  case (Cons op ops)
  have "no_shared_refs X (step op pw)"
    using Cons.prems(2) step_shape_of_inv [OF Cons.prems(1)] by (rule no_shared_refs_step)
  moreover have "pool_inv (step op pw)"
    using Cons.prems(1) by (rule pool_inv_step_op)
  ultimately show ?case
    using Cons.IH by simp
qed

lemma pool_inv_new:
  "destroyed w \<subseteq> {..<next_ref w} \<Longrightarrow> pool_inv (S3ConnectionPool_new opts w)"
  by (auto simp: pool_inv_def S3ConnectionPool_new_def Let_def)

text \<open>
  C3. Let a pool be built by the constructor and let any sequence of \<open>getClient\<close>,
  \<open>cleanup\<close>, \<open>clear\<close> and \<open>shutdown\<close> run on it. Then the store holds at most one entry
  per key; no stored entry holds a destroyed agent; entries under different keys share
  no client and no agent; and when an operation leaves the store without the entry that
  held the client of a stored entry, then after any further operations no stored entry,
  under the same key or another, holds the client or an agent of the removed entry: an
  entry stored later under that key is a new object with agents of its own.
\<close>

theorem store_one_entry_per_key_removed_entry_never_seen:
  assumes w0: "destroyed w0 \<subseteq> {..<next_ref w0}"
    and pw: "pw = run ops0 (S3ConnectionPool_new opts w0)"
  shows "distinct (map fst (pool (fst pw))) \<and>
         (\<forall>kv\<in>set (pool (fst pw)). entry_refs (snd kv) \<inter> destroyed (snd pw) = {}) \<and>
         (\<forall>kv\<in>set (pool (fst pw)). \<forall>kv'\<in>set (pool (fst pw)).
            fst kv \<noteq> fst kv' \<longrightarrow> entry_refs (snd kv) \<inter> entry_refs (snd kv') = {}) \<and>
         (\<forall>kv\<in>set (pool (fst pw)). \<forall>op ops.
            (\<forall>kv'\<in>set (pool (fst (step op pw))). client (snd kv') \<noteq> client (snd kv)) \<longrightarrow>
            (\<forall>kv''\<in>set (pool (fst (run ops (step op pw)))).
               entry_refs (snd kv'') \<inter> entry_refs (snd kv) = {}))"
proof -
  have inv: "pool_inv pw"
    unfolding pw using w0 by (intro pool_inv_run pool_inv_new)
  have last: "entry_refs (snd kv'') \<inter> entry_refs (snd kv) = {}"
    if mem: "kv \<in> set (pool (fst pw))"
      and gone: "\<forall>kv'\<in>set (pool (fst (step op pw))). client (snd kv') \<noteq> client (snd kv)"
      and later: "kv'' \<in> set (pool (fst (run ops (step op pw))))"
    for kv op ops kv''
  proof -
    have "no_shared_refs (entry_refs (snd kv)) (step op pw)"
      using inv step_shape_of_inv [OF inv] mem gone by (rule removed_entry_shares_no_refs)
    with pool_inv_step_op [OF inv]
    have "no_shared_refs (entry_refs (snd kv)) (run ops (step op pw))"
      by (rule no_shared_refs_run)
    with later show ?thesis
      unfolding no_shared_refs_def by simp
  qed
  show ?thesis
  proof (intro conjI ballI allI impI)
    show "distinct (map fst (pool (fst pw)))" by (rule pool_invD(1) [OF inv])
  next
    fix kv assume "kv \<in> set (pool (fst pw))"
    then show "entry_refs (snd kv) \<inter> destroyed (snd pw) = {}" by (rule pool_invD(4) [OF inv])
  next
    fix kv kv' assume "kv \<in> set (pool (fst pw))" "kv' \<in> set (pool (fst pw))" "fst kv \<noteq> fst kv'"
    then show "entry_refs (snd kv) \<inter> entry_refs (snd kv') = {}" by (rule pool_invD(5) [OF inv])
  next
    fix kv op ops kv''
    assume "kv \<in> set (pool (fst pw))"
      "\<forall>kv'\<in>set (pool (fst (step op pw))). client (snd kv') \<noteq> client (snd kv)"
      "kv'' \<in> set (pool (fst (run ops (step op pw))))"
    then show "entry_refs (snd kv'') \<inter> entry_refs (snd kv) = {}" by (rule last)
  qed
qed

theorem store_invariant_witness:
  "distinct (map fst (pool (fst after_first_acquire))) \<and>
   map (\<lambda>kv. entry_refs (snd kv)) (pool (fst after_first_acquire)) = [{1, 2, 3}] \<and>
   (\<Union>kv\<in>set (pool (fst (run [GetClient cfg_us_east_1 1500, GetClient cfg_us_east_1 1600]
                               after_first_acquire))). entry_refs (snd kv)) \<inter> {1, 2, 3} = {}"
proof -
  define pw where "pw = after_first_acquire"
  let ?op1 = "GetClient cfg_us_east_1 1500" and ?op2 = "GetClient cfg_us_east_1 1600"
  have reach: "pw = run [GetClient cfg_us_east_1 0] (S3ConnectionPool_new (Some ttl_1000) world0)"
    by (simp add: pw_def run_def after_first_acquire_def)
  have w0: "destroyed world0 \<subseteq> {..<next_ref world0}"
    by (simp add: world0_def)
  note t = store_one_entry_per_key_removed_entry_never_seen [OF w0 reach]
  have refs: "map (\<lambda>kv. entry_refs (snd kv)) (pool (fst pw)) = [{1, 2, 3}]"
    and cref: "map (\<lambda>kv. c_ref (client (snd kv))) (pool (fst pw)) = [3]"
    unfolding pw_def by (auto simp: example_defs entry_refs_def)
  have cref': "map (\<lambda>kv. c_ref (client (snd kv))) (pool (fst (step ?op1 pw))) = [6]"
    unfolding pw_def by (simp add: example_defs)
  from refs cref obtain kv where pool: "pool (fst pw) = [kv]"
    and kv: "entry_refs (snd kv) = {1, 2, 3}" "c_ref (client (snd kv)) = 3"
    by (cases "pool (fst pw)") auto
  have gone: "\<forall>kv'\<in>set (pool (fst (step ?op1 pw))). client (snd kv') \<noteq> client (snd kv)"
  proof
    fix kv' assume "kv' \<in> set (pool (fst (step ?op1 pw)))"
    with cref' have "c_ref (client (snd kv')) = 6"
      by (cases "pool (fst (step ?op1 pw))") auto
    with kv(2) show "client (snd kv') \<noteq> client (snd kv)" by auto
  qed
  from t have "\<forall>kv\<in>set (pool (fst pw)). \<forall>op ops.
            (\<forall>kv'\<in>set (pool (fst (step op pw))). client (snd kv') \<noteq> client (snd kv)) \<longrightarrow>
            (\<forall>kv''\<in>set (pool (fst (run ops (step op pw)))).
               entry_refs (snd kv'') \<inter> entry_refs (snd kv) = {})"
    by blast
  moreover have "kv \<in> set (pool (fst pw))"
    by (simp add: pool)
  ultimately have "\<forall>kv''\<in>set (pool (fst (run [?op2] (step ?op1 pw)))).
               entry_refs (snd kv'') \<inter> entry_refs (snd kv) = {}"
    using gone by blast
  then have 3: "(\<Union>kv\<in>set (pool (fst (run [?op1, ?op2] pw))). entry_refs (snd kv)) \<inter> {1, 2, 3} = {}"
    unfolding kv(1) run_def by (simp del: step.simps)
  from t have 1: "distinct (map fst (pool (fst pw)))"
    by blast
  from 1 refs 3 show ?thesis
    unfolding pw_def by blast
qed

end
